theory Spec2Isabelle
  imports Main "HOL-Library.Product_Lexorder"
begin

section \<open>The deferred-write sorted set of \<open>src/main.cpp\<close>\<close>

text \<open>
  The class \<open>contiguous_set<T, BufferSize>\<close> keeps a sorted vector \<open>items\<close> and a fixed
  array \<open>op_buffer\<close> of pending operations, of which the first \<open>buffer_ops\<close> are live.
  \<open>make_ready\<close> reconciles the pending operations with the vector.

  The element type \<open>T\<close> is any linear order. The array \<open>op_buffer[BufferSize]\<close> is a list
  whose length is \<open>BufferSize\<close>; \<open>buffer_ops\<close> is the C++ \<open>int\<close>. An array access outside
  the array, and a write through an iterator past the end of a vector, have no defined
  behaviour in C++: the model returns \<open>Inl OutOfBounds\<close> there.
\<close>

subsection \<open>Data\<close>

datatype ContainerState = Ready | Modified

datatype BufferOperation = InsertItem | DeleteItem

datatype 'a BufferItem = BufferItem (operation: BufferOperation) (item_value: 'a)

datatype error = OutOfBounds

record 'a contiguous_set =
  op_buffer :: "'a BufferItem list"
  buffer_ops :: int
  state :: ContainerState
  items :: "'a list"

definition BufferSize :: "'a contiguous_set \<Rightarrow> int" where
  "BufferSize s = int (length (op_buffer s))"

text \<open>\<open>BufferItem::operator<\<close>: by operation first (\<open>InsertItem = 0 < DeleteItem = 1\<close>),
  then by value.\<close>

fun operation_less :: "BufferOperation \<Rightarrow> BufferOperation \<Rightarrow> bool" where
  "operation_less InsertItem DeleteItem = True"
| "operation_less _ _ = False"

definition BufferItem_less :: "'a::linorder BufferItem \<Rightarrow> 'a BufferItem \<Rightarrow> bool" where
  "BufferItem_less a b =
     (if operation a = operation b then item_value a < item_value b
      else operation_less (operation a) (operation b))"

text \<open>The same order as a sort key: the enumerator's number, then the value.\<close>

fun operation_rank :: "BufferOperation \<Rightarrow> nat" where
  "operation_rank InsertItem = 0"
| "operation_rank DeleteItem = 1"

definition item_key :: "'a BufferItem \<Rightarrow> nat \<times> 'a" where
  "item_key b = (operation_rank (operation b), item_value b)"

subsection \<open>The standard algorithms the class calls\<close>

text \<open>\<open>std::lower_bound\<close> and \<open>std::upper_bound\<close> over the whole vector: the usual
  halving search, returning the index of the iterator (\<open>length xs\<close> is \<open>end()\<close>).
  Started on the whole vector, \<open>first + len\<close> never exceeds its length, so every read
  is in range.\<close>

function std_lower_bound_loop :: "'a::linorder list \<Rightarrow> 'a \<Rightarrow> nat \<Rightarrow> nat \<Rightarrow> nat" where
  "std_lower_bound_loop xs v first len =
     (if len = 0 then first
      else let half = len div 2; middle = first + half
           in if xs ! middle < v
              then std_lower_bound_loop xs v (middle + 1) (len - half - 1)
              else std_lower_bound_loop xs v first half)"
  by pat_completeness auto
termination
  by (relation "measure (\<lambda>(xs, v, first, len). len)") auto

definition std_lower_bound :: "'a::linorder list \<Rightarrow> 'a \<Rightarrow> nat" where
  "std_lower_bound xs v = std_lower_bound_loop xs v 0 (length xs)"

function std_upper_bound_loop :: "'a::linorder list \<Rightarrow> 'a \<Rightarrow> nat \<Rightarrow> nat \<Rightarrow> nat" where
  "std_upper_bound_loop xs v first len =
     (if len = 0 then first
      else let half = len div 2; middle = first + half
           in if v < xs ! middle
              then std_upper_bound_loop xs v first half
              else std_upper_bound_loop xs v (middle + 1) (len - half - 1))"
  by pat_completeness auto
termination
  by (relation "measure (\<lambda>(xs, v, first, len). len)") auto

definition std_upper_bound :: "'a::linorder list \<Rightarrow> 'a \<Rightarrow> nat" where
  "std_upper_bound xs v = std_upper_bound_loop xs v 0 (length xs)"

text \<open>\<open>std::binary_search\<close>: the lower bound is not the end and is not above the value.\<close>

definition std_binary_search :: "'a::linorder list \<Rightarrow> 'a \<Rightarrow> bool" where
  "std_binary_search xs v =
     (let i = std_lower_bound xs v in i < length xs \<and> \<not> v < xs ! i)"

text \<open>\<open>std::sort\<close> with \<open>BufferItem::operator<\<close>: ascending in \<open>item_key\<close>.\<close>

definition std_sort :: "'a::linorder BufferItem list \<Rightarrow> 'a BufferItem list" where
  "std_sort ops = sort_key item_key ops"

text \<open>\<open>std::inplace_merge(begin, begin + middle, end)\<close>: the stable merge of the two
  adjacent runs, taking from the second run only when its head is smaller.\<close>

fun merge_runs :: "'a::linorder list \<Rightarrow> 'a list \<Rightarrow> 'a list" where
  "merge_runs [] ys = ys"
| "merge_runs xs [] = xs"
| "merge_runs (x # xs) (y # ys) =
     (if y < x then y # merge_runs (x # xs) ys else x # merge_runs xs (y # ys))"

definition std_inplace_merge :: "'a::linorder list \<Rightarrow> nat \<Rightarrow> 'a list" where
  "std_inplace_merge xs middle = merge_runs (take middle xs) (drop middle xs)"

text \<open>\<open>std::copy(first, last, d_first)\<close> into a vector at index \<open>pos\<close>: it writes
  \<open>length src\<close> elements and never changes the size of the destination.\<close>

definition std_copy :: "'a list \<Rightarrow> 'a list \<Rightarrow> nat \<Rightarrow> error + 'a list" where
  "std_copy src dest pos =
     (if pos + length src \<le> length dest
      then Inr (take pos dest @ src @ drop (pos + length src) dest)
      else Inl OutOfBounds)"

subsection \<open>Reconciliation: \<open>make_ready\<close>\<close>

text \<open>The inner loops \<open>for(j = i + 1; j < buffer_ops; ++j)\<close> of the two branches, one
  step each, on the pair of the flag and the \<open>handled\<close> array.\<close>

definition insert_scan_step ::
  "'a BufferItem list \<Rightarrow> nat \<Rightarrow> nat \<Rightarrow> bool \<times> bool list \<Rightarrow> bool \<times> bool list" where
  "insert_scan_step buf i j = (\<lambda>(eventual_add, handled).
     if item_value (buf ! i) = item_value (buf ! j) then
       (case operation (buf ! j) of
          InsertItem \<Rightarrow> (True, handled[j := True])
        | DeleteItem \<Rightarrow> (False, handled[j := True]))
     else (eventual_add, handled))"

definition delete_scan_step ::
  "'a BufferItem list \<Rightarrow> nat \<Rightarrow> nat \<Rightarrow> bool \<times> bool list \<Rightarrow> bool \<times> bool list" where
  "delete_scan_step buf i j = (\<lambda>(eventual_delete, handled).
     if item_value (buf ! i) = item_value (buf ! j) then
       (case operation (buf ! j) of
          InsertItem \<Rightarrow> (False, handled[j := True])
        | DeleteItem \<Rightarrow> (True, handled[j := True]))
     else (eventual_delete, handled))"

text \<open>One iteration of the outer loop \<open>for(i = 0; i < buffer_ops; ++i)\<close>, on the
  \<open>handled\<close> array and the filled part of \<open>optimised_op_buffer\<close>
  (its length is \<open>write_command_pos\<close>).\<close>

definition resolve_step ::
  "'a::linorder BufferItem list \<Rightarrow> nat \<Rightarrow> 'a list \<Rightarrow> nat \<Rightarrow>
     bool list \<times> 'a BufferItem list \<Rightarrow> bool list \<times> 'a BufferItem list" where
  "resolve_step buf n its i = (\<lambda>(handled, optimised).
     if handled ! i then (handled, optimised)
     else
       let handled = handled[i := True] in
       (case operation (buf ! i) of
          InsertItem \<Rightarrow>
            let (eventual_add, handled) =
                  fold (insert_scan_step buf i) [i + 1 ..< n] (True, handled)
            in if eventual_add \<and> \<not> std_binary_search its (item_value (buf ! i))
               then (handled, optimised @ [buf ! i]) else (handled, optimised)
        | DeleteItem \<Rightarrow>
            let (eventual_delete, handled) =
                  fold (delete_scan_step buf i) [i + 1 ..< n] (True, handled)
            in if eventual_delete \<and> std_binary_search its (item_value (buf ! i))
               then (handled, optimised @ [buf ! i]) else (handled, optimised)))"

definition resolve :: "'a::linorder BufferItem list \<Rightarrow> nat \<Rightarrow> 'a list \<Rightarrow> 'a BufferItem list" where
  "resolve buf n its =
     snd (fold (resolve_step buf n its) [0 ..< n] (replicate (length buf) False, []))"

text \<open>The loop that counts the leading inserts of the sorted net operations.\<close>

fun count_inserts :: "'a BufferItem list \<Rightarrow> nat" where
  "count_inserts [] = 0"
| "count_inserts (b # bs) =
     (if operation b = DeleteItem then 0 else Suc (count_inserts bs))"

text \<open>The delete pass: one forward pass over the merged vector with a cursor into the
  sorted net deletes; an element equal to the cursor's value is dropped and the cursor
  moves on, every other element is kept.\<close>

fun delete_pass :: "'a list \<Rightarrow> 'a list \<Rightarrow> 'a list" where
  "delete_pass [] ds = []"
| "delete_pass (x # xs) [] = x # delete_pass xs []"
| "delete_pass (x # xs) (d # ds) =
     (if x = d then delete_pass xs ds else x # delete_pass xs (d # ds))"

definition make_ready :: "'a::linorder contiguous_set \<Rightarrow> error + 'a contiguous_set" where
  "make_ready s =
     (if buffer_ops s = 0 then Inr (s\<lparr>state := Ready\<rparr>)
      else if BufferSize s < buffer_ops s then Inl OutOfBounds
      else
        let optimised_op_buffer = std_sort (resolve (op_buffer s) (nat (buffer_ops s)) (items s));
            inserts = count_inserts optimised_op_buffer;
            old_size = length (items s);
            grown = items s @ map item_value (take inserts optimised_op_buffer);
            merged = std_inplace_merge grown old_size;
            kept = delete_pass merged (map item_value (drop inserts optimised_op_buffer))
        in Inr (s\<lparr>items := kept, buffer_ops := 0, state := Ready\<rparr>))"

subsection \<open>Construction and mutation\<close>

text \<open>The default constructor sets \<open>buffer_ops\<close> and \<open>state\<close>; the elements of the array
  are default-constructed \<open>BufferItem\<close>s, whose fields are left as they are in memory:
  the parameter is that memory.\<close>

definition contiguous_set_new :: "'a BufferItem list \<Rightarrow> 'a contiguous_set" where
  "contiguous_set_new memory =
     \<lparr>op_buffer = memory, buffer_ops = 0, state = Ready, items = []\<rparr>"

text \<open>\<open>op_buffer[buffer_ops++] = item\<close>.\<close>

definition push_op :: "'a contiguous_set \<Rightarrow> 'a BufferItem \<Rightarrow> error + 'a contiguous_set" where
  "push_op s item =
     (if 0 \<le> buffer_ops s \<and> buffer_ops s < BufferSize s
      then Inr (s\<lparr>op_buffer := (op_buffer s)[nat (buffer_ops s) := item],
                  buffer_ops := buffer_ops s + 1\<rparr>)
      else Inl OutOfBounds)"

definition insert_cs :: "'a::linorder contiguous_set \<Rightarrow> 'a \<Rightarrow> error + 'a contiguous_set" where
  "insert_cs s val =
     (case (if buffer_ops s = BufferSize s then make_ready s else Inr s) of
        Inl e \<Rightarrow> Inl e
      | Inr s1 \<Rightarrow> push_op s1 (BufferItem InsertItem val))"

definition erase :: "'a::linorder contiguous_set \<Rightarrow> 'a \<Rightarrow> error + 'a contiguous_set" where
  "erase s val =
     (case (if buffer_ops s = BufferSize s then make_ready s else Inr s) of
        Inl e \<Rightarrow> Inl e
      | Inr s1 \<Rightarrow> push_op s1 (BufferItem DeleteItem val))"

subsection \<open>Reads\<close>

text \<open>An iterator is the index of its element; \<open>items.end()\<close> is the length of the
  vector. A read that reconciles returns the reconciled container with its result.\<close>

definition begin_cs :: "'a::linorder contiguous_set \<Rightarrow> error + 'a contiguous_set \<times> nat" where
  "begin_cs s = (case make_ready s of Inl e \<Rightarrow> Inl e | Inr s1 \<Rightarrow> Inr (s1, 0))"

definition end_cs :: "'a::linorder contiguous_set \<Rightarrow> error + 'a contiguous_set \<times> nat" where
  "end_cs s = (case make_ready s of Inl e \<Rightarrow> Inl e | Inr s1 \<Rightarrow> Inr (s1, length (items s1)))"

definition size_cs :: "'a::linorder contiguous_set \<Rightarrow> error + 'a contiguous_set \<times> nat" where
  "size_cs s = (case make_ready s of Inl e \<Rightarrow> Inl e | Inr s1 \<Rightarrow> Inr (s1, length (items s1)))"

definition empty_cs :: "'a::linorder contiguous_set \<Rightarrow> error + 'a contiguous_set \<times> bool" where
  "empty_cs s = (case make_ready s of Inl e \<Rightarrow> Inl e | Inr s1 \<Rightarrow> Inr (s1, items s1 = []))"

definition clear :: "'a contiguous_set \<Rightarrow> 'a contiguous_set" where
  "clear s = s\<lparr>items := [], buffer_ops := 0\<rparr>"

text \<open>The values met by \<open>for(it = s.begin(); it != s.end(); ++it)\<close>.\<close>

definition iterate :: "'a::linorder contiguous_set \<Rightarrow> error + 'a contiguous_set \<times> 'a list" where
  "iterate s =
     (case begin_cs s of
        Inl e \<Rightarrow> Inl e
      | Inr (s1, start) \<Rightarrow>
          (case end_cs s1 of
             Inl e \<Rightarrow> Inl e
           | Inr (s2, stop) \<Rightarrow> Inr (s2, drop start (take stop (items s2)))))"

text \<open>The loop of \<open>find\<close>. It may run forever, so it is a partial function: \<open>None\<close> is
  "does not return". The result is the index found, or the end of the vector: the
  source's \<open>return iterator(items.begin() + med)\<close> is read as the iterator at \<open>med\<close>, and
  its \<open>return end()\<close> (where the local \<open>end\<close> hides the member) as the container's end.\<close>

partial_function (option) find_loop :: "'a::linorder list \<Rightarrow> 'a \<Rightarrow> nat \<Rightarrow> nat \<Rightarrow> nat option" where
  "find_loop its val beg fin =
     (if beg < fin then
        let med = beg + (fin - beg) div 2 in
        if its ! med = val then Some med
        else if its ! med > val then find_loop its val beg med
        else find_loop its val med fin
      else Some (length its))"

definition find_cs ::
  "'a::linorder contiguous_set \<Rightarrow> 'a \<Rightarrow> (error + 'a contiguous_set \<times> nat) option" where
  "find_cs s val =
     (case make_ready s of
        Inl e \<Rightarrow> Some (Inl e)
      | Inr s1 \<Rightarrow>
          (case size_cs s1 of
             Inl e \<Rightarrow> Some (Inl e)
           | Inr (s2, fin) \<Rightarrow>
               map_option (\<lambda>pos. Inr (s2, pos)) (find_loop (items s2) val 0 fin)))"

text \<open>The three range queries read \<open>items\<close> as it is; they do not call \<open>make_ready\<close>
  and leave the container as it was. \<open>equal_range\<close> is the pair that
  \<open>std::equal_range\<close> computes: the lower and the upper bound.\<close>

definition lower_bound :: "'a::linorder contiguous_set \<Rightarrow> 'a \<Rightarrow> nat" where
  "lower_bound s val = std_lower_bound (items s) val"

definition upper_bound :: "'a::linorder contiguous_set \<Rightarrow> 'a \<Rightarrow> nat" where
  "upper_bound s val = std_upper_bound (items s) val"

definition equal_range :: "'a::linorder contiguous_set \<Rightarrow> 'a \<Rightarrow> nat \<times> nat" where
  "equal_range s val = (std_lower_bound (items s) val, std_upper_bound (items s) val)"

subsection \<open>Copy construction\<close>

text \<open>The copy constructor has no initialiser list: \<open>op_buffer\<close>, \<open>buffer_ops\<close> and \<open>state\<close>
  of the new object keep what its memory held (the first three parameters), and \<open>items\<close>
  is default-constructed empty. Then \<open>other.make_ready()\<close>, \<open>items.resize(items.size())\<close>
  and \<open>std::copy\<close> of the other's items to \<open>items.begin()\<close>. A \<open>resize\<close> to the
  current size adds nothing and removes nothing. The result is the reconciled source and
  the new object.\<close>

definition copy_construct ::
  "'a BufferItem list \<Rightarrow> int \<Rightarrow> ContainerState \<Rightarrow> 'a::linorder contiguous_set \<Rightarrow>
     error + 'a contiguous_set \<times> 'a contiguous_set" where
  "copy_construct memory_buffer memory_ops memory_state other =
     (case make_ready other of
        Inl e \<Rightarrow> Inl e
      | Inr other1 \<Rightarrow>
          let this = \<lparr>op_buffer = memory_buffer, buffer_ops = memory_ops,
                      state = memory_state, items = []\<rparr>;
              resized = take (length (items this)) (items this)
          in (case std_copy (items other1) resized 0 of
                Inl e \<Rightarrow> Inl e
              | Inr copied \<Rightarrow> Inr (other1, this\<lparr>items := copied\<rparr>)))"

subsection \<open>Sequences of calls and the reference set\<close>

datatype 'a call = Insert 'a | Erase 'a

fun apply_call :: "'a::linorder contiguous_set \<Rightarrow> 'a call \<Rightarrow> error + 'a contiguous_set" where
  "apply_call s (Insert v) = insert_cs s v"
| "apply_call s (Erase v) = erase s v"

fun apply_calls :: "'a::linorder contiguous_set \<Rightarrow> 'a call list \<Rightarrow> error + 'a contiguous_set" where
  "apply_calls s [] = Inr s"
| "apply_calls s (c # cs) =
     (case apply_call s c of Inl e \<Rightarrow> Inl e | Inr s1 \<Rightarrow> apply_calls s1 cs)"

text \<open>The reference model of the specification: an ordered set, kept as its ascending
  duplicate-free list, to which each call is applied at once.\<close>

fun reference_call :: "'a::linorder list \<Rightarrow> 'a call \<Rightarrow> 'a list" where
  "reference_call xs (Insert v) = (if v \<in> set xs then xs else insort v xs)"
| "reference_call xs (Erase v) = removeAll v xs"

definition reference_contents :: "'a::linorder call list \<Rightarrow> 'a list" where
  "reference_contents calls = foldl reference_call [] calls"

subsection \<open>Notions used in the statements\<close>

text \<open>The live part of the log: the first \<open>buffer_ops\<close> entries of the array.\<close>

definition pending :: "'a contiguous_set \<Rightarrow> 'a BufferItem list" where
  "pending s = take (nat (buffer_ops s)) (op_buffer s)"

text \<open>The entries of a log on one value, in log order.\<close>

definition entries_for :: "'a \<Rightarrow> 'a BufferItem list \<Rightarrow> 'a BufferItem list" where
  "entries_for v log = filter (\<lambda>b. item_value b = v) log"

text \<open>The invariant of the log length.\<close>

definition log_within_capacity :: "'a contiguous_set \<Rightarrow> bool" where
  "log_within_capacity s = (0 \<le> buffer_ops s \<and> buffer_ops s \<le> BufferSize s)"

text \<open>What a caller sees who applies calls to a new container and then iterates.\<close>

definition observed_contents :: "'a BufferItem list \<Rightarrow> 'a::linorder call list \<Rightarrow> error + 'a list" where
  "observed_contents memory calls =
     (case apply_calls (contiguous_set_new memory) calls of
        Inl e \<Rightarrow> Inl e
      | Inr s \<Rightarrow> (case iterate s of Inl e \<Rightarrow> Inl e | Inr (s1, vs) \<Rightarrow> Inr vs))"

text \<open>Running a step on the container a previous step returned.\<close>

definition and_then :: "error + 'a \<Rightarrow> ('a \<Rightarrow> error + 'b) \<Rightarrow> error + 'b" where
  "and_then r f = (case r of Inl e \<Rightarrow> Inl e | Inr x \<Rightarrow> f x)"

text \<open>The memory of a \<open>contiguous_set<int>\<close> (\<open>BufferSize = 64\<close>) before construction,
  for the concrete runs below.\<close>

definition memory64 :: "int BufferItem list" where
  "memory64 = replicate 64 (BufferItem InsertItem 0)"

section \<open>The standard algorithms on sorted input\<close>

lemma BufferItem_less_key: "BufferItem_less a b \<longleftrightarrow> item_key a < item_key b"
  by (cases "operation a"; cases "operation b")
     (auto simp: BufferItem_less_def item_key_def)

lemma lower_bound_loop_bounds:
  "first \<le> std_lower_bound_loop xs v first len \<and> std_lower_bound_loop xs v first len \<le> first + len"
proof (induction xs v first len rule: std_lower_bound_loop.induct)
  case (1 xs v first len)
  show ?case
  proof (cases "len = 0")
    case True
    then show ?thesis by simp
  next
    case False
    define half where "half = len div 2"
    have hl: "half < len" using False by (simp add: half_def)
    show ?thesis
    proof (cases "xs ! (first + half) < v")
      case True
      have eq: "std_lower_bound_loop xs v first len
                = std_lower_bound_loop xs v (first + half + 1) (len - half - 1)"
        using False True by (subst std_lower_bound_loop.simps) (simp add: Let_def half_def)
      from "1.IH"(1)[OF False half_def refl] True
      have "first + half + 1 \<le> std_lower_bound_loop xs v (first + half + 1) (len - half - 1)
            \<and> std_lower_bound_loop xs v (first + half + 1) (len - half - 1)
               \<le> first + half + 1 + (len - half - 1)"
        by simp
      with hl show ?thesis unfolding eq by linarith
    next
      case F2: False
      have eq: "std_lower_bound_loop xs v first len = std_lower_bound_loop xs v first half"
        using False F2 by (subst std_lower_bound_loop.simps) (simp add: Let_def half_def)
      from "1.IH"(2)[OF False half_def refl] F2
      have "first \<le> std_lower_bound_loop xs v first half
            \<and> std_lower_bound_loop xs v first half \<le> first + half"
        by simp
      with hl show ?thesis unfolding eq by linarith
    qed
  qed
qed

lemma lower_bound_loop_below:
  "sorted xs \<Longrightarrow> first + len \<le> length xs \<Longrightarrow> first \<le> k \<Longrightarrow>
   k < std_lower_bound_loop xs v first len \<Longrightarrow> xs ! k < v"
proof (induction xs v first len rule: std_lower_bound_loop.induct)
  case (1 xs v first len)
  show ?case
  proof (cases "len = 0")
    case True
    with "1.prems" show ?thesis by simp
  next
    case False
    define half where "half = len div 2"
    have hl: "half < len" using False by (simp add: half_def)
    show ?thesis
    proof (cases "xs ! (first + half) < v")
      case True
      have eq: "std_lower_bound_loop xs v first len
                = std_lower_bound_loop xs v (first + half + 1) (len - half - 1)"
        using False True by (subst std_lower_bound_loop.simps) (simp add: Let_def half_def)
      show ?thesis
      proof (cases "k \<le> first + half")
        case kle: True
        have "xs ! k \<le> xs ! (first + half)"
          using "1.prems"(1,2) kle hl by (intro sorted_nth_mono) auto
        with True show ?thesis by simp
      next
        case kgt: False
        have "xs ! k < v"
        proof (rule "1.IH"(1)[OF False half_def refl])
          show "xs ! (first + half) < v" by (rule True)
          show "sorted xs" by (rule "1.prems"(1))
          show "first + half + 1 + (len - half - 1) \<le> length xs" using "1.prems"(2) hl by simp
          show "first + half + 1 \<le> k" using kgt by simp
          show "k < std_lower_bound_loop xs v (first + half + 1) (len - half - 1)"
            using "1.prems"(4) unfolding eq .
        qed
        then show ?thesis .
      qed
    next
      case F2: False
      have eq: "std_lower_bound_loop xs v first len = std_lower_bound_loop xs v first half"
        using False F2 by (subst std_lower_bound_loop.simps) (simp add: Let_def half_def)
      show ?thesis
      proof (rule "1.IH"(2)[OF False half_def refl])
        show "\<not> xs ! (first + half) < v" by (rule F2)
        show "sorted xs" by (rule "1.prems"(1))
        show "first + half \<le> length xs" using "1.prems"(2) hl by simp
        show "first \<le> k" by (rule "1.prems"(3))
        show "k < std_lower_bound_loop xs v first half" using "1.prems"(4) unfolding eq .
      qed
    qed
  qed
qed

lemma lower_bound_loop_above:
  "sorted xs \<Longrightarrow> first + len \<le> length xs \<Longrightarrow> std_lower_bound_loop xs v first len \<le> k \<Longrightarrow>
   k < first + len \<Longrightarrow> v \<le> xs ! k"
proof (induction xs v first len rule: std_lower_bound_loop.induct)
  case (1 xs v first len)
  show ?case
  proof (cases "len = 0")
    case True
    with "1.prems" show ?thesis by simp
  next
    case False
    define half where "half = len div 2"
    have hl: "half < len" using False by (simp add: half_def)
    show ?thesis
    proof (cases "xs ! (first + half) < v")
      case True
      have eq: "std_lower_bound_loop xs v first len
                = std_lower_bound_loop xs v (first + half + 1) (len - half - 1)"
        using False True by (subst std_lower_bound_loop.simps) (simp add: Let_def half_def)
      show ?thesis
      proof (rule "1.IH"(1)[OF False half_def refl])
        show "xs ! (first + half) < v" by (rule True)
        show "sorted xs" by (rule "1.prems"(1))
        show "first + half + 1 + (len - half - 1) \<le> length xs" using "1.prems"(2) hl by simp
        show "std_lower_bound_loop xs v (first + half + 1) (len - half - 1) \<le> k"
          using "1.prems"(3) unfolding eq .
        show "k < first + half + 1 + (len - half - 1)" using "1.prems"(4) hl by simp
      qed
    next
      case F2: False
      have eq: "std_lower_bound_loop xs v first len = std_lower_bound_loop xs v first half"
        using False F2 by (subst std_lower_bound_loop.simps) (simp add: Let_def half_def)
      show ?thesis
      proof (cases "k < first + half")
        case klt: True
        show ?thesis
        proof (rule "1.IH"(2)[OF False half_def refl])
          show "\<not> xs ! (first + half) < v" by (rule F2)
          show "sorted xs" by (rule "1.prems"(1))
          show "first + half \<le> length xs" using "1.prems"(2) hl by simp
          show "std_lower_bound_loop xs v first half \<le> k" using "1.prems"(3) unfolding eq .
          show "k < first + half" by (rule klt)
        qed
      next
        case kge: False
        have "xs ! (first + half) \<le> xs ! k"
          using "1.prems"(1,2,4) kge by (intro sorted_nth_mono) auto
        with F2 show ?thesis by simp
      qed
    qed
  qed
qed

lemma std_binary_search_sorted:
  assumes "sorted xs"
  shows "std_binary_search xs v \<longleftrightarrow> v \<in> set xs"
proof -
  define r where "r = std_lower_bound_loop xs v 0 (length xs)"
  have rle: "r \<le> length xs"
    using lower_bound_loop_bounds[of 0 xs v "length xs"] by (simp add: r_def)
  have below: "\<And>k. k < r \<Longrightarrow> xs ! k < v"
    using lower_bound_loop_below[OF assms, of 0 "length xs" _ v] by (simp add: r_def)
  have above: "\<And>k. r \<le> k \<Longrightarrow> k < length xs \<Longrightarrow> v \<le> xs ! k"
    using lower_bound_loop_above[OF assms, of 0 "length xs" v] by (simp add: r_def)
  have bs: "std_binary_search xs v \<longleftrightarrow> r < length xs \<and> \<not> v < xs ! r"
    by (simp add: std_binary_search_def std_lower_bound_def r_def Let_def)
  show ?thesis
  proof
    assume "std_binary_search xs v"
    then have "r < length xs" "\<not> v < xs ! r" using bs by auto
    moreover from this above[of r] have "v \<le> xs ! r" by simp
    ultimately have "xs ! r = v" by simp
    with \<open>r < length xs\<close> show "v \<in> set xs" by (metis nth_mem)
  next
    assume "v \<in> set xs"
    then obtain k where k: "k < length xs" "xs ! k = v" by (auto simp: in_set_conv_nth)
    have "r \<le> k"
    proof (rule ccontr)
      assume "\<not> r \<le> k"
      then have "xs ! k < v" using below[of k] by simp
      with k show False by simp
    qed
    then have "r < length xs" using k by simp
    moreover have "xs ! r \<le> xs ! k" using assms \<open>r \<le> k\<close> k by (intro sorted_nth_mono) auto
    ultimately show "std_binary_search xs v" using bs k by auto
  qed
qed

lemma set_merge_runs: "set (merge_runs xs ys) = set xs \<union> set ys"
  by (induction xs ys rule: merge_runs.induct) auto

lemma strict_sorted_merge_runs:
  "sorted_wrt (<) xs \<Longrightarrow> sorted_wrt (<) ys \<Longrightarrow> set xs \<inter> set ys = {} \<Longrightarrow>
   sorted_wrt (<) (merge_runs xs ys)"
proof (induction xs ys rule: merge_runs.induct)
  case (3 x xs y ys)
  have ne: "x \<noteq> y" using "3.prems"(3) by auto
  show ?case
  proof (cases "y < x")
    case True
    have "sorted_wrt (<) (merge_runs (x # xs) ys)"
      using "3.IH"(1)[OF True] "3.prems" by auto
    moreover have "\<forall>z \<in> set (merge_runs (x # xs) ys). y < z"
      using "3.prems"(1,2) True by (auto simp: set_merge_runs)
    ultimately show ?thesis using True by simp
  next
    case False
    then have lt: "x < y" using ne by simp
    have "sorted_wrt (<) (merge_runs xs (y # ys))"
      using "3.IH"(2)[OF False] "3.prems" by auto
    moreover have "\<forall>z \<in> set (merge_runs xs (y # ys)). x < z"
      using "3.prems"(1,2) lt by (auto simp: set_merge_runs)
    ultimately show ?thesis using False by simp
  qed
qed simp_all

lemma std_inplace_merge_append:
  "std_inplace_merge (xs @ ys) (length xs) = merge_runs xs ys"
  by (simp add: std_inplace_merge_def)

lemma set_delete_pass_subset: "set (delete_pass xs ds) \<subseteq> set xs"
  by (induction xs ds rule: delete_pass.induct) auto

lemma set_delete_pass_keeps: "x \<in> set xs \<Longrightarrow> x \<notin> set ds \<Longrightarrow> x \<in> set (delete_pass xs ds)"
  by (induction xs ds rule: delete_pass.induct) auto

lemma delete_pass_Nil: "delete_pass xs [] = xs"
  by (induction xs) auto

lemma strict_sorted_delete_pass:
  "sorted_wrt (<) xs \<Longrightarrow> sorted_wrt (<) (delete_pass xs ds)"
proof (induction xs ds rule: delete_pass.induct)
  case (2 x xs)
  then show ?case using set_delete_pass_subset[of xs "[]"] by auto
next
  case (3 x xs d ds)
  then show ?case using set_delete_pass_subset[of xs "d # ds"] by auto
qed simp

lemma count_inserts_take_all_inserts:
  "b \<in> set (take (count_inserts bs) bs) \<Longrightarrow> operation b = InsertItem"
proof (induction bs)
  case (Cons a bs)
  then show ?case by (cases "operation a") (auto split: if_splits)
qed simp

lemma strict_sorted_same_kind_values:
  "sorted (map item_key bs) \<Longrightarrow> distinct (map item_value bs) \<Longrightarrow>
   \<forall>b \<in> set bs. operation b = K \<Longrightarrow> sorted_wrt (<) (map item_value bs)"
proof (induction bs)
  case (Cons a bs)
  have "\<forall>b \<in> set bs. item_value a < item_value b"
  proof
    fix b assume b: "b \<in> set bs"
    then have "item_key a \<le> item_key b" using Cons.prems(1) by auto
    moreover have "operation a = operation b" using Cons.prems(3) b by simp
    ultimately have "item_value a \<le> item_value b" by (simp add: item_key_def)
    moreover have "item_value a \<noteq> item_value b" using Cons.prems(2) b by auto
    ultimately show "item_value a < item_value b" by simp
  qed
  moreover have "sorted_wrt (<) (map item_value bs)" using Cons by simp
  ultimately show ?case by simp
qed simp

lemma drop_count_inserts_all_deletes:
  "sorted (map item_key bs) \<Longrightarrow> b \<in> set (drop (count_inserts bs) bs) \<Longrightarrow> operation b = DeleteItem"
proof (induction bs)
  case (Cons a bs)
  show ?case
  proof (cases "operation a = DeleteItem")
    case True
    show ?thesis
    proof (cases "b = a")
      case False
      then have "b \<in> set bs" using Cons.prems(2) True by simp
      then have "item_key a \<le> item_key b" using Cons.prems(1) by auto
      then show ?thesis using True by (cases "operation b") (auto simp: item_key_def)
    qed (simp add: True)
  next
    case False
    then show ?thesis using Cons by simp
  qed
qed simp

lemma set_delete_pass:
  "sorted_wrt (<) (xs :: 'a::linorder list) \<Longrightarrow> sorted_wrt (<) ds \<Longrightarrow> set ds \<subseteq> set xs \<Longrightarrow>
   set (delete_pass xs ds) = set xs - set ds"
proof (induction xs ds rule: delete_pass.induct)
  case (1 ds)
  then show ?case by simp
next
  case (2 x xs)
  then show ?case by (simp add: delete_pass_Nil)
next
  case (3 x xs d ds)
  have xs: "sorted_wrt (<) xs" and xlt: "\<forall>y \<in> set xs. x < y" using "3.prems"(1) by auto
  have ds: "sorted_wrt (<) ds" and dlt: "\<forall>e \<in> set ds. d < e" using "3.prems"(2) by auto
  show ?case
  proof (cases "x = d")
    case True
    have sub: "set ds \<subseteq> set xs"
    proof
      fix e assume e: "e \<in> set ds"
      then have "d < e" using dlt by simp
      moreover have "e \<in> set (x # xs)" using "3.prems"(3) e by auto
      ultimately show "e \<in> set xs" using True by auto
    qed
    have "set (delete_pass xs ds) = set xs - set ds" using "3.IH"(1)[OF True xs ds sub] .
    moreover have "x \<notin> set xs" using xlt by auto
    ultimately show ?thesis using True by auto
  next
    case False
    have dx: "d \<in> set xs" using "3.prems"(3) False by auto
    then have xd: "x < d" using xlt by simp
    have sub: "set (d # ds) \<subseteq> set xs"
    proof
      fix e assume e: "e \<in> set (d # ds)"
      then have "x < e" using xd dlt by auto
      moreover have "e \<in> set (x # xs)" using "3.prems"(3) e by blast
      ultimately show "e \<in> set xs" by auto
    qed
    have "set (delete_pass xs (d # ds)) = set xs - set (d # ds)"
      using "3.IH"(2)[OF False xs "3.prems"(2) sub] .
    moreover have "x \<notin> set (d # ds)" using xd dlt by auto
    ultimately show ?thesis using False by auto
  qed
qed

lemma std_sort_props:
  "set (std_sort bs) = set bs" "sorted (map item_key (std_sort bs))"
  "distinct (map item_value (std_sort bs)) = distinct (map item_value bs)"
proof -
  show "set (std_sort bs) = set bs" by (simp add: std_sort_def)
  show "sorted (map item_key (std_sort bs))" by (simp add: std_sort_def)
  show "distinct (map item_value (std_sort bs)) = distinct (map item_value bs)"
    by (simp add: std_sort_def distinct_map)
qed

text \<open>The sorted net operations ascend in \<open>BufferItem::operator<\<close>.\<close>

lemma std_sort_ascending: "sorted_wrt (\<lambda>a b. \<not> BufferItem_less b a) (std_sort ops)"
proof -
  have "sorted_wrt (\<lambda>a b. item_key a \<le> item_key b) (std_sort ops)"
    using std_sort_props(2)[of ops] by (simp add: sorted_wrt_map)
  then show ?thesis
    by (rule sorted_wrt_mono_rel[rotated]) (simp add: BufferItem_less_key not_less)
qed

section \<open>The resolution loops of \<open>make_ready\<close>\<close>

lemma insert_scan_step_eq:
  "insert_scan_step buf i j (e, h) =
     (if item_value (buf ! i) = item_value (buf ! j)
      then (operation (buf ! j) = InsertItem, h[j := True]) else (e, h))"
  by (cases "operation (buf ! j)") (simp_all add: insert_scan_step_def)

lemma delete_scan_step_eq:
  "delete_scan_step buf i j (e, h) =
     (if item_value (buf ! i) = item_value (buf ! j)
      then (operation (buf ! j) = DeleteItem, h[j := True]) else (e, h))"
  by (cases "operation (buf ! j)") (simp_all add: delete_scan_step_def)

lemma nth_mark: "j < length h \<Longrightarrow> h[m := True] ! j = (j = m \<or> h ! j)"
  by (cases "j = m") simp_all

lemma entries_for_take_Suc:
  "m < length buf \<Longrightarrow>
   entries_for v (take (Suc m) buf) =
     entries_for v (take m buf) @ (if item_value (buf ! m) = v then [buf ! m] else [])"
  by (simp add: entries_for_def take_Suc_conv_app_nth)

lemma scan_fold:
  assumes step: "\<And>j e h. f j (e, h) =
       (if item_value (buf ! i) = item_value (buf ! j)
        then (operation (buf ! j) = K, h[j := True]) else (e, h))"
    and "i < m" "m \<le> length buf"
  shows "\<exists>h'. fold f [Suc i ..< m] (operation (buf ! i) = K, h) =
           (operation (last (entries_for (item_value (buf ! i)) (take m buf))) = K, h')
         \<and> length h' = length h
         \<and> (\<forall>j < length h. h' ! j =
              (h ! j \<or> (i < j \<and> j < m \<and> item_value (buf ! j) = item_value (buf ! i))))"
  using assms(2,3)
proof (induction m)
  case 0
  then show ?case by simp
next
  case (Suc m)
  show ?case
  proof (cases "i = m")
    case True
    have "entries_for (item_value (buf ! i)) (take (Suc m) buf)
          = entries_for (item_value (buf ! i)) (take m buf) @ [buf ! i]"
      using Suc.prems True by (simp add: entries_for_take_Suc)
    then show ?thesis using True by auto
  next
    case False
    then have im: "i < m" and ml: "m \<le> length buf" and mlt: "m < length buf"
      using Suc.prems by auto
    from Suc.IH[OF im ml] obtain h' where
      fo: "fold f [Suc i ..< m] (operation (buf ! i) = K, h) =
           (operation (last (entries_for (item_value (buf ! i)) (take m buf))) = K, h')"
      and len: "length h' = length h"
      and nth: "\<forall>j < length h. h' ! j =
              (h ! j \<or> (i < j \<and> j < m \<and> item_value (buf ! j) = item_value (buf ! i)))"
      by blast
    have upt: "[Suc i ..< Suc m] = [Suc i ..< m] @ [m]" using im by simp
    show ?thesis
    proof (cases "item_value (buf ! i) = item_value (buf ! m)")
      case same: True
      have e: "entries_for (item_value (buf ! i)) (take (Suc m) buf)
            = entries_for (item_value (buf ! i)) (take m buf) @ [buf ! m]"
        using mlt same by (simp add: entries_for_take_Suc)
      have "fold f [Suc i ..< Suc m] (operation (buf ! i) = K, h)
            = (operation (buf ! m) = K, h'[m := True])"
        unfolding upt using same by (simp add: fo step)
      moreover have "\<forall>j < length h. h'[m := True] ! j =
              (h ! j \<or> (i < j \<and> j < Suc m \<and> item_value (buf ! j) = item_value (buf ! i)))"
        using nth len same im by (auto simp: nth_mark less_Suc_eq)
      ultimately show ?thesis using len e by simp
    next
      case diff: False
      have e: "entries_for (item_value (buf ! i)) (take (Suc m) buf)
            = entries_for (item_value (buf ! i)) (take m buf)"
        using mlt diff by (auto simp add: entries_for_take_Suc)
      have "fold f [Suc i ..< Suc m] (operation (buf ! i) = K, h)
            = (operation (last (entries_for (item_value (buf ! i)) (take m buf))) = K, h')"
        unfolding upt using diff by (simp add: fo step)
      moreover have "\<forall>j < length h. h' ! j =
              (h ! j \<or> (i < j \<and> j < Suc m \<and> item_value (buf ! j) = item_value (buf ! i)))"
        using nth diff by (auto simp: less_Suc_eq)
      ultimately show ?thesis using len e by simp
    qed
  qed
qed

lemma resolve_step_effect:
  assumes kn: "k < n" and nl: "n \<le> length buf" and lh: "length handled = length buf"
  shows "\<exists>hN oN. resolve_step buf n its k (handled, optimised) = (hN, oN)
     \<and> length hN = length buf
     \<and> (if handled ! k then hN = handled \<and> oN = optimised
        else (\<forall>j < n. hN ! j = (handled ! j \<or> (k \<le> j \<and> item_value (buf ! j) = item_value (buf ! k))))
           \<and> oN = (if operation (last (entries_for (item_value (buf ! k)) (take n buf))) = operation (buf ! k)
                       \<and> (std_binary_search its (item_value (buf ! k)) = (operation (buf ! k) = DeleteItem))
                    then optimised @ [buf ! k] else optimised))"
proof (cases "handled ! k")
  case True
  then show ?thesis using lh by (simp add: resolve_step_def)
next
  case False
  define h1 where "h1 = handled[k := True]"
  define v where "v = item_value (buf ! k)"
  have lh1: "length h1 = length buf" by (simp add: h1_def lh)
  have h1nth: "\<And>j. j < n \<Longrightarrow> h1 ! j = (handled ! j \<or> j = k)"
    using nl lh by (auto simp: h1_def nth_mark)
  show ?thesis
  proof (cases "operation (buf ! k)")
    case InsertItem
    from scan_fold[where f = "insert_scan_step buf k" and K = InsertItem and h = h1,
        OF insert_scan_step_eq kn nl]
    obtain h' where
      fo: "fold (insert_scan_step buf k) [Suc k ..< n] (True, h1) =
           (operation (last (entries_for v (take n buf))) = InsertItem, h')"
      and len: "length h' = length h1"
      and nth: "\<forall>j < length h1. h' ! j =
              (h1 ! j \<or> (k < j \<and> j < n \<and> item_value (buf ! j) = item_value (buf ! k)))"
      using InsertItem unfolding v_def by auto
    have hN: "\<forall>j < n. h' ! j = (handled ! j \<or> (k \<le> j \<and> item_value (buf ! j) = item_value (buf ! k)))"
      using nth h1nth lh1 nl by (auto simp: le_less)
    have "resolve_step buf n its k (handled, optimised) =
            (h', if operation (last (entries_for v (take n buf))) = InsertItem
                    \<and> \<not> std_binary_search its v
                 then optimised @ [buf ! k] else optimised)"
      using False InsertItem fo
      by (simp add: resolve_step_def h1_def[symmetric] v_def[symmetric])
    then show ?thesis using False hN len lh1 InsertItem unfolding v_def by auto
  next
    case DeleteItem
    from scan_fold[where f = "delete_scan_step buf k" and K = DeleteItem and h = h1,
        OF delete_scan_step_eq kn nl]
    obtain h' where
      fo: "fold (delete_scan_step buf k) [Suc k ..< n] (True, h1) =
           (operation (last (entries_for v (take n buf))) = DeleteItem, h')"
      and len: "length h' = length h1"
      and nth: "\<forall>j < length h1. h' ! j =
              (h1 ! j \<or> (k < j \<and> j < n \<and> item_value (buf ! j) = item_value (buf ! k)))"
      using DeleteItem unfolding v_def by auto
    have hN: "\<forall>j < n. h' ! j = (handled ! j \<or> (k \<le> j \<and> item_value (buf ! j) = item_value (buf ! k)))"
      using nth h1nth lh1 nl by (auto simp: le_less)
    have "resolve_step buf n its k (handled, optimised) =
            (h', if operation (last (entries_for v (take n buf))) = DeleteItem
                    \<and> std_binary_search its v
                 then optimised @ [buf ! k] else optimised)"
      using False DeleteItem fo
      by (simp add: resolve_step_def h1_def[symmetric] v_def[symmetric])
    then show ?thesis using False hN len lh1 DeleteItem unfolding v_def by auto
  qed
qed

lemma resolve_fold_invariant:
  assumes nl: "n \<le> length buf" and "k \<le> n"
  shows "\<exists>handled optimised.
      fold (resolve_step buf n its) [0 ..< k] (replicate (length buf) False, []) = (handled, optimised)
    \<and> length handled = length buf
    \<and> (\<forall>j < n. handled ! j = (\<exists>i < k. item_value (buf ! i) = item_value (buf ! j)))
    \<and> (\<forall>b \<in> set optimised. \<exists>i < k. b = buf ! i
          \<and> (\<forall>i' < i. item_value (buf ! i') \<noteq> item_value (buf ! i))
          \<and> operation (last (entries_for (item_value b) (take n buf))) = operation b
          \<and> (std_binary_search its (item_value b) = (operation b = DeleteItem)))
    \<and> (\<forall>i < k. (\<forall>i' < i. item_value (buf ! i') \<noteq> item_value (buf ! i))
          \<and> operation (last (entries_for (item_value (buf ! i)) (take n buf))) = operation (buf ! i)
          \<and> (std_binary_search its (item_value (buf ! i)) = (operation (buf ! i) = DeleteItem))
          \<longrightarrow> buf ! i \<in> set optimised)
    \<and> distinct (map item_value optimised)"
  using assms(2)
proof (induction k)
  case 0
  then show ?case using nl by simp
next
  case (Suc k)
  then have kn: "k < n" by simp
  from Suc.IH obtain handled optimised where
    fo: "fold (resolve_step buf n its) [0 ..< k] (replicate (length buf) False, []) = (handled, optimised)"
    and lh: "length handled = length buf"
    and hd: "\<forall>j < n. handled ! j = (\<exists>i < k. item_value (buf ! i) = item_value (buf ! j))"
    and opt: "\<forall>b \<in> set optimised. \<exists>i < k. b = buf ! i
          \<and> (\<forall>i' < i. item_value (buf ! i') \<noteq> item_value (buf ! i))
          \<and> operation (last (entries_for (item_value b) (take n buf))) = operation b
          \<and> (std_binary_search its (item_value b) = (operation b = DeleteItem))"
    and comp: "\<forall>i < k. (\<forall>i' < i. item_value (buf ! i') \<noteq> item_value (buf ! i))
          \<and> operation (last (entries_for (item_value (buf ! i)) (take n buf))) = operation (buf ! i)
          \<and> (std_binary_search its (item_value (buf ! i)) = (operation (buf ! i) = DeleteItem))
          \<longrightarrow> buf ! i \<in> set optimised"
    and dist: "distinct (map item_value optimised)"
    using kn by auto
  from resolve_step_effect[OF kn nl lh, of its optimised] obtain hN oN where
    st: "resolve_step buf n its k (handled, optimised) = (hN, oN)"
    and lN: "length hN = length buf"
    and exact: "if handled ! k then hN = handled \<and> oN = optimised
        else (\<forall>j < n. hN ! j = (handled ! j \<or> (k \<le> j \<and> item_value (buf ! j) = item_value (buf ! k))))
           \<and> oN = (if operation (last (entries_for (item_value (buf ! k)) (take n buf))) = operation (buf ! k)
                       \<and> (std_binary_search its (item_value (buf ! k)) = (operation (buf ! k) = DeleteItem))
                    then optimised @ [buf ! k] else optimised)"
    by blast
  have eff: "if handled ! k then hN = handled \<and> oN = optimised
        else (\<forall>j < n. hN ! j = (handled ! j \<or> (k \<le> j \<and> item_value (buf ! j) = item_value (buf ! k))))
           \<and> (oN = optimised
              \<or> (oN = optimised @ [buf ! k]
                 \<and> operation (last (entries_for (item_value (buf ! k)) (take n buf))) = operation (buf ! k)
                 \<and> (std_binary_search its (item_value (buf ! k)) = (operation (buf ! k) = DeleteItem))))"
  proof (cases "handled ! k")
    case True
    then show ?thesis using exact by simp
  next
    case False
    then show ?thesis using exact by (simp split: if_splits)
  qed
  have grows: "set optimised \<subseteq> set oN" using eff by (auto split: if_splits)
  have fo': "fold (resolve_step buf n its) [0 ..< Suc k] (replicate (length buf) False, []) = (hN, oN)"
    by (simp add: fo st)
  have first: "\<not> handled ! k \<Longrightarrow> \<forall>i' < k. item_value (buf ! i') \<noteq> item_value (buf ! k)"
    using hd kn by auto
  have hdN: "\<forall>j < n. hN ! j = (\<exists>i < Suc k. item_value (buf ! i) = item_value (buf ! j))"
  proof (intro allI impI)
    fix j assume jn: "j < n"
    show "hN ! j = (\<exists>i < Suc k. item_value (buf ! i) = item_value (buf ! j))"
    proof (cases "handled ! k")
      case True
      then obtain i0 where i0: "i0 < k" "item_value (buf ! i0) = item_value (buf ! k)"
        using hd kn by auto
      have "hN ! j = (\<exists>i < k. item_value (buf ! i) = item_value (buf ! j))"
        using eff True hd jn by simp
      also have "\<dots> = (\<exists>i < Suc k. item_value (buf ! i) = item_value (buf ! j))"
        using i0 by (metis less_Suc_eq)
      finally show ?thesis .
    next
      case False
      have "hN ! j = (handled ! j \<or> (k \<le> j \<and> item_value (buf ! j) = item_value (buf ! k)))"
        using eff False jn by simp
      also have "\<dots> = ((\<exists>i < k. item_value (buf ! i) = item_value (buf ! j))
                        \<or> (k \<le> j \<and> item_value (buf ! j) = item_value (buf ! k)))"
        using hd jn by simp
      also have "\<dots> = (\<exists>i < Suc k. item_value (buf ! i) = item_value (buf ! j))"
      proof (cases "k \<le> j")
        case True
        then show ?thesis by (metis less_Suc_eq)
      next
        case jk: False
        then have "j < k" by simp
        then show ?thesis by (metis less_Suc_eq)
      qed
      finally show ?thesis .
    qed
  qed
  have optN: "\<forall>b \<in> set oN. \<exists>i < Suc k. b = buf ! i
          \<and> (\<forall>i' < i. item_value (buf ! i') \<noteq> item_value (buf ! i))
          \<and> operation (last (entries_for (item_value b) (take n buf))) = operation b
          \<and> (std_binary_search its (item_value b) = (operation b = DeleteItem))"
  proof
    fix b assume b: "b \<in> set oN"
    show "\<exists>i < Suc k. b = buf ! i
          \<and> (\<forall>i' < i. item_value (buf ! i') \<noteq> item_value (buf ! i))
          \<and> operation (last (entries_for (item_value b) (take n buf))) = operation b
          \<and> (std_binary_search its (item_value b) = (operation b = DeleteItem))"
    proof (cases "b \<in> set optimised")
      case True
      with opt obtain i where "i < k" "b = buf ! i"
          "\<forall>i' < i. item_value (buf ! i') \<noteq> item_value (buf ! i)"
          "operation (last (entries_for (item_value b) (take n buf))) = operation b"
          "std_binary_search its (item_value b) = (operation b = DeleteItem)"
        by blast
      then show ?thesis by (intro exI[of _ i]) simp
    next
      case False
      then have nh: "\<not> handled ! k" and new: "oN = optimised @ [buf ! k]" and bk: "b = buf ! k"
        and rest: "operation (last (entries_for (item_value (buf ! k)) (take n buf))) = operation (buf ! k)"
           "std_binary_search its (item_value (buf ! k)) = (operation (buf ! k) = DeleteItem)"
        using eff b by (auto split: if_splits)
      show ?thesis using first[OF nh] rest bk by (intro exI[of _ k]) simp
    qed
  qed
  have distN: "distinct (map item_value oN)"
  proof (cases "oN = optimised")
    case True
    then show ?thesis using dist by simp
  next
    case False
    then have nh: "\<not> handled ! k" and new: "oN = optimised @ [buf ! k]"
      using eff by (auto split: if_splits)
    have "item_value (buf ! k) \<notin> item_value ` set optimised"
    proof
      assume "item_value (buf ! k) \<in> item_value ` set optimised"
      then obtain b where "b \<in> set optimised" "item_value b = item_value (buf ! k)" by auto
      with opt obtain i where "i < k" "item_value (buf ! i) = item_value (buf ! k)" by metis
      with first[OF nh] show False by simp
    qed
    then show ?thesis using dist new by simp
  qed
  have compN: "\<forall>i < Suc k. (\<forall>i' < i. item_value (buf ! i') \<noteq> item_value (buf ! i))
          \<and> operation (last (entries_for (item_value (buf ! i)) (take n buf))) = operation (buf ! i)
          \<and> (std_binary_search its (item_value (buf ! i)) = (operation (buf ! i) = DeleteItem))
          \<longrightarrow> buf ! i \<in> set oN"
  proof (intro allI impI)
    fix i
    assume i: "i < Suc k"
      and c: "(\<forall>i' < i. item_value (buf ! i') \<noteq> item_value (buf ! i))
          \<and> operation (last (entries_for (item_value (buf ! i)) (take n buf))) = operation (buf ! i)
          \<and> (std_binary_search its (item_value (buf ! i)) = (operation (buf ! i) = DeleteItem))"
    show "buf ! i \<in> set oN"
    proof (cases "i < k")
      case True
      then show ?thesis using comp c grows by blast
    next
      case False
      then have ik: "i = k" using i by simp
      have "\<not> handled ! k" using hd kn c ik by auto
      then show ?thesis using exact c ik by simp
    qed
  qed
  show ?case using fo' lN hdN optN compN distN by blast
qed

lemma resolve_sound:
  assumes "n \<le> length buf" "b \<in> set (resolve buf n its)"
  shows "\<exists>i < n. b = buf ! i
          \<and> (\<forall>i' < i. item_value (buf ! i') \<noteq> item_value (buf ! i))
          \<and> operation (last (entries_for (item_value b) (take n buf))) = operation b
          \<and> (std_binary_search its (item_value b) = (operation b = DeleteItem))"
  using resolve_fold_invariant[OF assms(1) le_refl, of its] assms(2)
  unfolding resolve_def by fastforce

lemma resolve_distinct:
  assumes "n \<le> length buf"
  shows "distinct (map item_value (resolve buf n its))"
  using resolve_fold_invariant[OF assms le_refl, of its]
  unfolding resolve_def by fastforce

lemma resolve_complete:
  assumes "n \<le> length buf" "i < n"
    and "\<forall>i' < i. item_value (buf ! i') \<noteq> item_value (buf ! i)"
    and "operation (last (entries_for (item_value (buf ! i)) (take n buf))) = operation (buf ! i)"
    and "std_binary_search its (item_value (buf ! i)) = (operation (buf ! i) = DeleteItem)"
  shows "buf ! i \<in> set (resolve buf n its)"
  using resolve_fold_invariant[OF assms(1) le_refl, of its] assms(2-5)
  unfolding resolve_def by fastforce

lemma hd_filter_first:
  "i < length xs \<Longrightarrow> P (xs ! i) \<Longrightarrow> \<forall>i' < i. \<not> P (xs ! i') \<Longrightarrow> hd (filter P xs) = xs ! i"
proof (induction xs arbitrary: i)
  case (Cons x xs)
  show ?case
  proof (cases i)
    case 0
    with Cons.prems show ?thesis by simp
  next
    case (Suc i0)
    have "\<not> P x" using Cons.prems(3) Suc by auto
    moreover have "hd (filter P xs) = xs ! i0"
      using Cons.prems Suc by (intro Cons.IH) auto
    ultimately show ?thesis using Suc by simp
  qed
qed simp

lemma resolve_first_entry:
  assumes nl: "n \<le> length buf" and b: "b \<in> set (resolve buf n its)"
  shows "hd (entries_for (item_value b) (take n buf)) = b"
proof -
  from resolve_sound[OF nl b] obtain i where i: "i < n" "b = buf ! i"
    "\<forall>i' < i. item_value (buf ! i') \<noteq> item_value (buf ! i)" by blast
  have "hd (filter (\<lambda>c. item_value c = item_value b) (take n buf)) = take n buf ! i"
    using i nl by (intro hd_filter_first) auto
  then show ?thesis using i by (simp add: entries_for_def)
qed

lemma resolve_subset_log:
  assumes "n \<le> length buf" "b \<in> set (resolve buf n its)"
  shows "b \<in> set (take n buf)"
proof -
  from resolve_sound[OF assms] obtain i where "i < n" "b = buf ! i" by blast
  then show ?thesis using assms(1) by (auto simp: in_set_conv_nth)
qed

lemma first_entry_index:
  assumes "entries_for v (take n buf) \<noteq> []" "n \<le> length buf"
  shows "\<exists>i < n. item_value (buf ! i) = v \<and> (\<forall>i' < i. item_value (buf ! i') \<noteq> v)
            \<and> hd (entries_for v (take n buf)) = buf ! i"
proof -
  obtain b where "List.find (\<lambda>b. item_value b = v) (take n buf) = Some b"
    using assms(1) by (cases "List.find (\<lambda>b. item_value b = v) (take n buf)")
      (auto simp: entries_for_def find_None_iff filter_empty_conv)
  then obtain i where i: "i < length (take n buf)" "item_value (take n buf ! i) = v"
      "\<forall>j < i. item_value (take n buf ! j) \<noteq> v"
    unfolding find_Some_iff by blast
  have "hd (filter (\<lambda>b. item_value b = v) (take n buf)) = take n buf ! i"
    using i by (intro hd_filter_first) auto
  then show ?thesis using i assms(2) by (intro exI[of _ i]) (auto simp: entries_for_def)
qed

lemma resolve_emits_iff:
  assumes nl: "n \<le> length buf"
  shows "BufferItem K v \<in> set (resolve buf n its) \<longleftrightarrow>
           entries_for v (take n buf) \<noteq> []
         \<and> operation (hd (entries_for v (take n buf))) = K
         \<and> operation (last (entries_for v (take n buf))) = K
         \<and> std_binary_search its v = (K = DeleteItem)"
proof
  assume b: "BufferItem K v \<in> set (resolve buf n its)"
  have h: "hd (entries_for v (take n buf)) = BufferItem K v"
    using resolve_first_entry[OF nl b] by simp
  have "BufferItem K v \<in> set (take n buf)" using resolve_subset_log[OF nl b] .
  then have "entries_for v (take n buf) \<noteq> []"
    by (force simp: entries_for_def filter_empty_conv)
  then show "entries_for v (take n buf) \<noteq> []
         \<and> operation (hd (entries_for v (take n buf))) = K
         \<and> operation (last (entries_for v (take n buf))) = K
         \<and> std_binary_search its v = (K = DeleteItem)"
    using h resolve_sound[OF nl b] by auto
next
  assume a: "entries_for v (take n buf) \<noteq> []
         \<and> operation (hd (entries_for v (take n buf))) = K
         \<and> operation (last (entries_for v (take n buf))) = K
         \<and> std_binary_search its v = (K = DeleteItem)"
  from first_entry_index[OF _ nl, of v] a obtain i where
    i: "i < n" "item_value (buf ! i) = v" "\<forall>i' < i. item_value (buf ! i') \<noteq> v"
       "hd (entries_for v (take n buf)) = buf ! i" by blast
  have k: "operation (buf ! i) = K" using a i(4) by simp
  have "buf ! i \<in> set (resolve buf n its)"
    using i a k by (intro resolve_complete[OF nl]) auto
  moreover have "buf ! i = BufferItem K v" using k i(2) by (cases "buf ! i") simp
  ultimately show "BufferItem K v \<in> set (resolve buf n its)" by simp
qed

section \<open>Reconciliation as a whole\<close>

lemma resolve_skips_mixed:
  assumes nl: "n \<le> length buf"
    and mixed: "operation (hd (entries_for v (take n buf))) \<noteq> operation (last (entries_for v (take n buf)))"
  shows "v \<notin> item_value ` set (resolve buf n its)"
proof
  assume "v \<in> item_value ` set (resolve buf n its)"
  then obtain b where b: "b \<in> set (resolve buf n its)" and v: "item_value b = v" by auto
  have "hd (entries_for v (take n buf)) = b"
    using resolve_first_entry[OF nl b] v by simp
  moreover have "operation (last (entries_for v (take n buf))) = operation b"
    using resolve_sound[OF nl b] v by auto
  ultimately show False using mixed by simp
qed

lemma make_ready_pending:
  assumes "buffer_ops s \<noteq> 0" "buffer_ops s \<le> BufferSize s"
  shows "make_ready s =
     (let ops = std_sort (resolve (op_buffer s) (nat (buffer_ops s)) (items s));
          inserts = count_inserts ops
      in Inr (s\<lparr>items := delete_pass (merge_runs (items s) (map item_value (take inserts ops)))
                            (map item_value (drop inserts ops)),
               buffer_ops := 0, state := Ready\<rparr>))"
  using assms by (simp add: make_ready_def Let_def std_inplace_merge_append)

lemma make_ready_empty_log: "buffer_ops s = 0 \<Longrightarrow> make_ready s = Inr (s\<lparr>state := Ready\<rparr>)"
  by (simp add: make_ready_def)

lemma make_ready_returns:
  assumes "buffer_ops s \<le> BufferSize s"
  shows "\<exists>s'. make_ready s = Inr s' \<and> buffer_ops s' = 0 \<and> op_buffer s' = op_buffer s
             \<and> state s' = Ready"
proof (cases "buffer_ops s = 0")
  case True
  then show ?thesis by (simp add: make_ready_empty_log)
next
  case False
  then show ?thesis using assms by (simp add: make_ready_pending Let_def)
qed

lemma make_ready_strict_sorted:
  assumes srt: "sorted_wrt (<) (items s)" and cap: "buffer_ops s \<le> BufferSize s"
  shows "\<exists>s'. make_ready s = Inr s' \<and> sorted_wrt (<) (items s')"
proof (cases "buffer_ops s = 0")
  case True
  then show ?thesis using srt by (simp add: make_ready_empty_log)
next
  case False
  define n where "n = nat (buffer_ops s)"
  define ops where "ops = std_sort (resolve (op_buffer s) n (items s))"
  define ins where "ins = take (count_inserts ops) ops"
  have nl: "n \<le> length (op_buffer s)" using cap by (simp add: n_def BufferSize_def)
  have sub: "set ins \<subseteq> set (resolve (op_buffer s) n (items s))"
    using set_take_subset[of "count_inserts ops" ops] by (simp add: ins_def ops_def std_sort_props)
  have all_ins: "\<forall>b \<in> set ins. operation b = InsertItem"
    using count_inserts_take_all_inserts by (auto simp: ins_def)
  have "sorted (map item_key ops)" by (simp add: ops_def std_sort_props)
  then have k: "sorted (map item_key ins)"
    unfolding ins_def by (simp add: take_map[symmetric] sorted_wrt_take)
  have "distinct (map item_value ops)"
    using resolve_distinct[OF nl] by (simp add: ops_def std_sort_props)
  then have d: "distinct (map item_value ins)"
    unfolding ins_def by (simp add: take_map[symmetric])
  have s_ins: "sorted_wrt (<) (map item_value ins)"
    by (rule strict_sorted_same_kind_values[OF k d all_ins])
  have disj: "set (items s) \<inter> set (map item_value ins) = {}"
  proof (rule ccontr)
    assume "set (items s) \<inter> set (map item_value ins) \<noteq> {}"
    then obtain b where b: "b \<in> set ins" and mem: "item_value b \<in> set (items s)" by auto
    have "b \<in> set (resolve (op_buffer s) n (items s))" using b sub by auto
    from resolve_sound[OF nl this]
    have "std_binary_search (items s) (item_value b) = (operation b = DeleteItem)" by auto
    moreover have "operation b = InsertItem" using all_ins b by simp
    moreover have "std_binary_search (items s) (item_value b)"
      using std_binary_search_sorted[OF strict_sorted_imp_sorted[OF srt]] mem by simp
    ultimately show False by simp
  qed
  have "sorted_wrt (<) (merge_runs (items s) (map item_value ins))"
    by (rule strict_sorted_merge_runs[OF srt s_ins disj])
  then have "sorted_wrt (<) (delete_pass (merge_runs (items s) (map item_value ins))
                 (map item_value (drop (count_inserts ops) ops)))"
    by (rule strict_sorted_delete_pass)
  then show ?thesis
    using False cap by (simp add: make_ready_pending Let_def ins_def ops_def n_def)
qed

lemma make_ready_membership_unchanged:
  assumes cap: "buffer_ops s \<le> BufferSize s" and ne: "buffer_ops s \<noteq> 0"
    and skip: "v \<notin> item_value ` set (resolve (op_buffer s) (nat (buffer_ops s)) (items s))"
  shows "\<exists>s'. make_ready s = Inr s' \<and> (v \<in> set (items s') \<longleftrightarrow> v \<in> set (items s))"
proof -
  define ops where "ops = std_sort (resolve (op_buffer s) (nat (buffer_ops s)) (items s))"
  define ins where "ins = map item_value (take (count_inserts ops) ops)"
  define dels where "dels = map item_value (drop (count_inserts ops) ops)"
  have vo: "v \<notin> item_value ` set ops" using skip by (simp add: ops_def std_sort_props)
  have vi: "v \<notin> set ins"
    using vo set_take_subset[of "count_inserts ops" ops] by (auto simp: ins_def)
  have vd: "v \<notin> set dels"
    using vo set_drop_subset[of "count_inserts ops" ops] by (auto simp: dels_def)
  have "v \<in> set (delete_pass (merge_runs (items s) ins) dels) \<longleftrightarrow> v \<in> set (items s)"
  proof
    assume "v \<in> set (delete_pass (merge_runs (items s) ins) dels)"
    then have "v \<in> set (merge_runs (items s) ins)" using set_delete_pass_subset by fastforce
    then show "v \<in> set (items s)" using vi by (simp add: set_merge_runs)
  next
    assume "v \<in> set (items s)"
    then have "v \<in> set (merge_runs (items s) ins)" by (simp add: set_merge_runs)
    then show "v \<in> set (delete_pass (merge_runs (items s) ins) dels)"
      using vd by (rule set_delete_pass_keeps)
  qed
  then show ?thesis
    using cap ne by (simp add: make_ready_pending Let_def ins_def dels_def ops_def)
qed

section \<open>Recording calls\<close>

lemma merge_runs_Nil2: "merge_runs xs [] = xs"
  by (cases xs) simp_all

lemma push_op_effect:
  assumes "0 \<le> buffer_ops s" "buffer_ops s < BufferSize s"
  shows "\<exists>s'. push_op s item = Inr s' \<and> pending s' = pending s @ [item]
           \<and> buffer_ops s' = buffer_ops s + 1 \<and> BufferSize s' = BufferSize s
           \<and> items s' = items s \<and> state s' = state s"
proof -
  have lt: "nat (buffer_ops s) < length (op_buffer s)"
    using assms by (simp add: BufferSize_def)
  have "nat (buffer_ops s + 1) = Suc (nat (buffer_ops s))" using assms(1) by simp
  then have "take (nat (buffer_ops s + 1)) ((op_buffer s)[nat (buffer_ops s) := item])
        = take (nat (buffer_ops s)) (op_buffer s) @ [item]"
    using lt by (simp add: take_Suc_conv_app_nth)
  then show ?thesis using assms by (simp add: push_op_def pending_def BufferSize_def)
qed

lemma pending_empty: "buffer_ops s = 0 \<Longrightarrow> pending s = []"
  by (simp add: pending_def)

lemma record_call_effect:
  assumes pos: "0 < BufferSize s" and inv: "log_within_capacity s"
  shows "\<exists>s1 s'. (if buffer_ops s = BufferSize s then make_ready s else Inr s) = Inr s1
         \<and> push_op s1 item = Inr s'
         \<and> items s' = items s1
         \<and> pending s' = (if buffer_ops s = BufferSize s then [] else pending s) @ [item]
         \<and> buffer_ops s' = (if buffer_ops s = BufferSize s then 1 else buffer_ops s + 1)
         \<and> BufferSize s' = BufferSize s
         \<and> log_within_capacity s'"
proof (cases "buffer_ops s = BufferSize s")
  case True
  from make_ready_returns[of s] True obtain s1 where
    s1: "make_ready s = Inr s1" "buffer_ops s1 = 0" "op_buffer s1 = op_buffer s" by auto
  have bs: "BufferSize s1 = BufferSize s" using s1(3) by (simp add: BufferSize_def)
  from push_op_effect[of s1 item] s1(2) pos bs obtain s' where
    "push_op s1 item = Inr s'" "pending s' = pending s1 @ [item]"
    "buffer_ops s' = buffer_ops s1 + 1" "BufferSize s' = BufferSize s1" "items s' = items s1"
    by auto
  then show ?thesis
    using True s1 bs pos by (auto simp: pending_empty log_within_capacity_def)
next
  case False
  then have lt: "buffer_ops s < BufferSize s" and nn: "0 \<le> buffer_ops s"
    using inv by (auto simp: log_within_capacity_def)
  from push_op_effect[OF nn lt, of item] obtain s' where
    "push_op s item = Inr s'" "pending s' = pending s @ [item]"
    "buffer_ops s' = buffer_ops s + 1" "BufferSize s' = BufferSize s" "items s' = items s"
    by auto
  then show ?thesis
    using False lt nn by (auto simp: log_within_capacity_def)
qed

lemma insert_cs_effect:
  assumes "0 < BufferSize s" "log_within_capacity s"
  shows "\<exists>s1 s'. (if buffer_ops s = BufferSize s then make_ready s else Inr s) = Inr s1
         \<and> insert_cs s v = Inr s'
         \<and> items s' = items s1
         \<and> pending s' = (if buffer_ops s = BufferSize s then [] else pending s) @ [BufferItem InsertItem v]
         \<and> buffer_ops s' = (if buffer_ops s = BufferSize s then 1 else buffer_ops s + 1)
         \<and> BufferSize s' = BufferSize s
         \<and> log_within_capacity s'"
proof -
  from record_call_effect[OF assms, of "BufferItem InsertItem v"] obtain s1 s' where
    a: "(if buffer_ops s = BufferSize s then make_ready s else Inr s) = Inr s1"
    and b: "push_op s1 (BufferItem InsertItem v) = Inr s'"
    and c: "items s' = items s1"
      "pending s' = (if buffer_ops s = BufferSize s then [] else pending s) @ [BufferItem InsertItem v]"
      "buffer_ops s' = (if buffer_ops s = BufferSize s then 1 else buffer_ops s + 1)"
      "BufferSize s' = BufferSize s" "log_within_capacity s'"
    by blast
  have "insert_cs s v = Inr s'" unfolding insert_cs_def a using b by simp
  with a c show ?thesis by blast
qed

lemma erase_effect:
  assumes "0 < BufferSize s" "log_within_capacity s"
  shows "\<exists>s1 s'. (if buffer_ops s = BufferSize s then make_ready s else Inr s) = Inr s1
         \<and> erase s v = Inr s'
         \<and> items s' = items s1
         \<and> pending s' = (if buffer_ops s = BufferSize s then [] else pending s) @ [BufferItem DeleteItem v]
         \<and> buffer_ops s' = (if buffer_ops s = BufferSize s then 1 else buffer_ops s + 1)
         \<and> BufferSize s' = BufferSize s
         \<and> log_within_capacity s'"
proof -
  from record_call_effect[OF assms, of "BufferItem DeleteItem v"] obtain s1 s' where
    a: "(if buffer_ops s = BufferSize s then make_ready s else Inr s) = Inr s1"
    and b: "push_op s1 (BufferItem DeleteItem v) = Inr s'"
    and c: "items s' = items s1"
      "pending s' = (if buffer_ops s = BufferSize s then [] else pending s) @ [BufferItem DeleteItem v]"
      "buffer_ops s' = (if buffer_ops s = BufferSize s then 1 else buffer_ops s + 1)"
      "BufferSize s' = BufferSize s" "log_within_capacity s'"
    by blast
  have "erase s v = Inr s'" unfolding erase_def a using b by simp
  with a c show ?thesis by blast
qed

lemma apply_calls_within_capacity:
  "0 < BufferSize s \<Longrightarrow> log_within_capacity s \<Longrightarrow>
   \<exists>s'. apply_calls s calls = Inr s' \<and> log_within_capacity s' \<and> BufferSize s' = BufferSize s"
proof (induction calls arbitrary: s)
  case Nil
  then show ?case by simp
next
  case (Cons c calls)
  have "\<exists>s1. apply_call s c = Inr s1 \<and> log_within_capacity s1 \<and> BufferSize s1 = BufferSize s"
  proof (cases c)
    case (Insert v)
    then show ?thesis using insert_cs_effect[OF Cons.prems, of v] by auto
  next
    case (Erase v)
    then show ?thesis using erase_effect[OF Cons.prems, of v] by auto
  qed
  then obtain s1 where s1: "apply_call s c = Inr s1" "log_within_capacity s1"
    "BufferSize s1 = BufferSize s" by blast
  from Cons.IH[of s1] s1 Cons.prems(1) obtain s' where
    "apply_calls s1 calls = Inr s'" "log_within_capacity s'" "BufferSize s' = BufferSize s1"
    by auto
  then show ?case using s1 by simp
qed

section \<open>What reconciliation leaves in the store\<close>

text \<open>For a strictly increasing store, the store after \<open>make_ready\<close> is strictly increasing
  and holds a value exactly if: the log has no entry on it, or its first and last entries
  differ in kind, and the store held it; or its first and last entries are both inserts.\<close>

lemma make_ready_set:
  assumes srt: "sorted_wrt (<) (items s)" and cap: "buffer_ops s \<le> BufferSize s"
    and ne: "buffer_ops s \<noteq> 0"
  shows "\<exists>s'. make_ready s = Inr s' \<and>
     set (items s') =
       (set (items s) \<union> {v. BufferItem InsertItem v \<in> set (resolve (op_buffer s) (nat (buffer_ops s)) (items s))})
       - {v. BufferItem DeleteItem v \<in> set (resolve (op_buffer s) (nat (buffer_ops s)) (items s))}"
proof -
  define n where "n = nat (buffer_ops s)"
  define R where "R = resolve (op_buffer s) n (items s)"
  define ops where "ops = std_sort R"
  define ins where "ins = take (count_inserts ops) ops"
  define dels where "dels = drop (count_inserts ops) ops"
  have nl: "n \<le> length (op_buffer s)" using cap by (simp add: n_def BufferSize_def)
  have so: "sorted (map item_key ops)" and seto: "set ops = set R"
    and disto: "distinct (map item_value ops)"
    using resolve_distinct[OF nl] by (simp_all add: ops_def R_def std_sort_props)
  have split: "ins @ dels = ops" by (simp add: ins_def dels_def)
  have all_ins: "\<forall>b \<in> set ins. operation b = InsertItem"
    using count_inserts_take_all_inserts by (auto simp: ins_def)
  have all_del: "\<forall>b \<in> set dels. operation b = DeleteItem"
    using drop_count_inserts_all_deletes[OF so] by (auto simp: dels_def)
  have setR: "set R = set ins \<union> set dels" using split seto by (metis set_append)
  have insV: "set (map item_value ins) = {v. BufferItem InsertItem v \<in> set R}"
  proof (intro set_eqI iffI)
    fix v assume "v \<in> set (map item_value ins)"
    then obtain b where b: "b \<in> set ins" "item_value b = v" by auto
    have "operation b = InsertItem" using all_ins b by simp
    then have "b = BufferItem InsertItem v" using b(2) by (metis BufferItem.collapse)
    then show "v \<in> {v. BufferItem InsertItem v \<in> set R}" using b setR by auto
  next
    fix v assume "v \<in> {v. BufferItem InsertItem v \<in> set R}"
    then have "BufferItem InsertItem v \<in> set ins" using setR all_del by fastforce
    then show "v \<in> set (map item_value ins)" by force
  qed
  have delV: "set (map item_value dels) = {v. BufferItem DeleteItem v \<in> set R}"
  proof (intro set_eqI iffI)
    fix v assume "v \<in> set (map item_value dels)"
    then obtain b where b: "b \<in> set dels" "item_value b = v" by auto
    have "operation b = DeleteItem" using all_del b by simp
    then have "b = BufferItem DeleteItem v" using b(2) by (metis BufferItem.collapse)
    then show "v \<in> {v. BufferItem DeleteItem v \<in> set R}" using b setR by auto
  next
    fix v assume "v \<in> {v. BufferItem DeleteItem v \<in> set R}"
    then have "BufferItem DeleteItem v \<in> set dels" using setR all_ins by fastforce
    then show "v \<in> set (map item_value dels)" by force
  qed
  have ki: "sorted (map item_key ins)"
    using so unfolding ins_def by (simp add: take_map[symmetric] sorted_wrt_take)
  have kd: "sorted (map item_key dels)"
    using so unfolding dels_def by (simp add: drop_map[symmetric] sorted_wrt_drop)
  have di: "distinct (map item_value ins)"
    using disto unfolding ins_def by (simp add: take_map[symmetric])
  have dd: "distinct (map item_value dels)"
    using disto unfolding dels_def by (simp add: drop_map[symmetric])
  have s_ins: "sorted_wrt (<) (map item_value ins)"
    by (rule strict_sorted_same_kind_values[OF ki di all_ins])
  have s_del: "sorted_wrt (<) (map item_value dels)"
    by (rule strict_sorted_same_kind_values[OF kd dd all_del])
  have bs: "\<And>v. std_binary_search (items s) v = (v \<in> set (items s))"
    using std_binary_search_sorted[OF strict_sorted_imp_sorted[OF srt]] by simp
  have disj: "set (items s) \<inter> set (map item_value ins) = {}"
  proof (rule ccontr)
    assume "set (items s) \<inter> set (map item_value ins) \<noteq> {}"
    then obtain v where v: "v \<in> set (items s)" "BufferItem InsertItem v \<in> set R"
      using insV by auto
    from resolve_sound[OF nl v(2)[unfolded R_def]] have "\<not> std_binary_search (items s) v" by auto
    then show False using bs v(1) by simp
  qed
  have sub: "set (map item_value dels) \<subseteq> set (merge_runs (items s) (map item_value ins))"
  proof
    fix v assume "v \<in> set (map item_value dels)"
    then have "BufferItem DeleteItem v \<in> set R" using delV by auto
    from resolve_sound[OF nl this[unfolded R_def]] have "std_binary_search (items s) v" by auto
    then show "v \<in> set (merge_runs (items s) (map item_value ins))"
      using bs by (simp add: set_merge_runs)
  qed
  have sm: "sorted_wrt (<) (merge_runs (items s) (map item_value ins))"
    by (rule strict_sorted_merge_runs[OF srt s_ins disj])
  have "set (delete_pass (merge_runs (items s) (map item_value ins)) (map item_value dels))
        = (set (items s) \<union> {v. BufferItem InsertItem v \<in> set R}) - {v. BufferItem DeleteItem v \<in> set R}"
    unfolding set_delete_pass[OF sm s_del sub] set_merge_runs insV delV ..
  then show ?thesis
    using cap ne
    by (simp add: make_ready_pending Let_def ins_def dels_def ops_def R_def n_def)
qed

lemma make_ready_membership:
  assumes srt: "sorted_wrt (<) (items s)" and cap: "buffer_ops s \<le> BufferSize s"
  shows "\<exists>s'. make_ready s = Inr s' \<and> sorted_wrt (<) (items s') \<and> buffer_ops s' = 0 \<and>
     (\<forall>v. v \<in> set (items s') \<longleftrightarrow>
        (if entries_for v (pending s) = []
            \<or> operation (hd (entries_for v (pending s))) \<noteq> operation (last (entries_for v (pending s)))
         then v \<in> set (items s)
         else operation (last (entries_for v (pending s))) = InsertItem))"
proof (cases "buffer_ops s \<le> 0")
  case True
  have p: "pending s = []" using True by (simp add: pending_def)
  have "\<exists>s'. make_ready s = Inr s' \<and> items s' = items s \<and> buffer_ops s' = 0"
  proof (cases "buffer_ops s = 0")
    case z: True
    then show ?thesis by (simp add: make_ready_empty_log)
  next
    case False
    have "resolve (op_buffer s) (nat (buffer_ops s)) (items s) = []"
      using True by (simp add: resolve_def)
    then show ?thesis using False cap
      by (simp add: make_ready_pending Let_def std_sort_def merge_runs_Nil2 delete_pass_Nil)
  qed
  then show ?thesis using srt p by (auto simp: entries_for_def)
next
  case False
  then have ne: "buffer_ops s \<noteq> 0" by simp
  have nl: "nat (buffer_ops s) \<le> length (op_buffer s)" using cap by (simp add: BufferSize_def)
  have bs: "\<And>v. std_binary_search (items s) v = (v \<in> set (items s))"
    using std_binary_search_sorted[OF strict_sorted_imp_sorted[OF srt]] by simp
  from make_ready_set[OF srt cap ne] obtain s' where
    mr: "make_ready s = Inr s'"
    and st: "set (items s') =
       (set (items s) \<union> {v. BufferItem InsertItem v \<in> set (resolve (op_buffer s) (nat (buffer_ops s)) (items s))})
       - {v. BufferItem DeleteItem v \<in> set (resolve (op_buffer s) (nat (buffer_ops s)) (items s))}"
    by blast
  have so: "sorted_wrt (<) (items s')" using make_ready_strict_sorted[OF srt cap] mr by auto
  have z: "buffer_ops s' = 0" using make_ready_returns[OF cap] mr by auto
  have mem: "v \<in> set (items s') \<longleftrightarrow>
        (if entries_for v (pending s) = []
            \<or> operation (hd (entries_for v (pending s))) \<noteq> operation (last (entries_for v (pending s)))
         then v \<in> set (items s)
         else operation (last (entries_for v (pending s))) = InsertItem)" for v
  proof -
    have i: "BufferItem InsertItem v \<in> set (resolve (op_buffer s) (nat (buffer_ops s)) (items s)) \<longleftrightarrow>
        entries_for v (pending s) \<noteq> []
        \<and> operation (hd (entries_for v (pending s))) = InsertItem
        \<and> operation (last (entries_for v (pending s))) = InsertItem \<and> v \<notin> set (items s)"
      using resolve_emits_iff[OF nl, of InsertItem v "items s"] bs by (simp add: pending_def)
    have d: "BufferItem DeleteItem v \<in> set (resolve (op_buffer s) (nat (buffer_ops s)) (items s)) \<longleftrightarrow>
        entries_for v (pending s) \<noteq> []
        \<and> operation (hd (entries_for v (pending s))) = DeleteItem
        \<and> operation (last (entries_for v (pending s))) = DeleteItem \<and> v \<in> set (items s)"
      using resolve_emits_iff[OF nl, of DeleteItem v "items s"] bs by (simp add: pending_def)
    show ?thesis
      unfolding st using i d
      by (cases "operation (hd (entries_for v (pending s)))";
          cases "operation (last (entries_for v (pending s)))") auto
  qed
  show ?thesis using mr so z mem by blast
qed

lemma insert_then_erase_pending:
  assumes inv: "log_within_capacity s" and room: "buffer_ops s + 2 \<le> BufferSize s"
  shows "\<exists>s1 s2. insert_cs s v = Inr s1 \<and> erase s1 v = Inr s2
          \<and> pending s2 = pending s @ [BufferItem InsertItem v, BufferItem DeleteItem v]
          \<and> buffer_ops s2 = buffer_ops s + 2 \<and> BufferSize s2 = BufferSize s \<and> items s2 = items s"
proof -
  have pos: "0 < BufferSize s" and nf: "buffer_ops s \<noteq> BufferSize s"
    using inv room by (auto simp: log_within_capacity_def)
  from insert_cs_effect[OF pos inv, of v] nf obtain s1 where
    s1: "insert_cs s v = Inr s1" "items s1 = items s"
      "pending s1 = pending s @ [BufferItem InsertItem v]"
      "buffer_ops s1 = buffer_ops s + 1" "BufferSize s1 = BufferSize s" "log_within_capacity s1"
    by auto
  have pos1: "0 < BufferSize s1" and nf1: "buffer_ops s1 \<noteq> BufferSize s1"
    using s1(4,5) pos room by auto
  from erase_effect[OF pos1 s1(6), of v] nf1 obtain s2 where
    "erase s1 v = Inr s2" "items s2 = items s1"
      "pending s2 = pending s1 @ [BufferItem DeleteItem v]"
      "buffer_ops s2 = buffer_ops s1 + 1" "BufferSize s2 = BufferSize s1"
    by auto
  with s1 show ?thesis by auto
qed

section \<open>The loop of \<open>find\<close>\<close>

lemma find_loop_never_returns:
  assumes "beg < fin" "its ! beg < val" "val \<notin> set its" "fin \<le> length its"
  shows "find_loop its val beg fin = None"
proof (rule ccontr)
  assume "find_loop its val beg fin \<noteq> None"
  then obtain y where y: "find_loop its val beg fin = Some y" by auto
  have "\<not> (beg < fin \<and> its ! beg < val \<and> val \<notin> set its \<and> fin \<le> length its)"
  proof (rule find_loop.raw_induct[where P = "\<lambda>its val beg fin y.
            \<not> (beg < fin \<and> its ! beg < val \<and> val \<notin> set its \<and> fin \<le> length its)", OF _ y])
    fix f :: "'a list \<Rightarrow> 'a \<Rightarrow> nat \<Rightarrow> nat \<Rightarrow> nat option" and its val beg fin y
    assume IH: "\<And>its val beg fin y. f its val beg fin = Some y \<Longrightarrow>
            \<not> (beg < fin \<and> its ! beg < val \<and> val \<notin> set its \<and> fin \<le> length its)"
      and body: "(if beg < fin then
                   let med = beg + (fin - beg) div 2 in
                   if its ! med = val then Some med
                   else if its ! med > val then f its val beg med
                   else f its val med fin
                 else Some (length its)) = Some y"
    show "\<not> (beg < fin \<and> its ! beg < val \<and> val \<notin> set its \<and> fin \<le> length its)"
    proof
      assume inv: "beg < fin \<and> its ! beg < val \<and> val \<notin> set its \<and> fin \<le> length its"
      define med where "med = beg + (fin - beg) div 2"
      have mb: "beg \<le> med" "med < fin" using inv by (auto simp: med_def)
      have ne: "its ! med \<noteq> val" using inv mb by (metis less_le_trans nth_mem)
      show False
      proof (cases "val < its ! med")
        case True
        then have "f its val beg med = Some y"
          using body inv ne by (simp add: Let_def med_def)
        moreover have "beg < med"
        proof (rule ccontr)
          assume "\<not> beg < med"
          then have "med = beg" using mb by simp
          with True inv show False by (auto dest: less_asym)
        qed
        ultimately show False using IH[of its val beg med y] inv mb by simp
      next
        case False
        then have "f its val med fin = Some y"
          using body inv ne by (simp add: Let_def med_def)
        moreover have "its ! med < val" using False ne by simp
        ultimately show False using IH[of its val med fin y] inv mb by simp
      qed
    qed
  qed
  with assms show False by simp
qed

lemma find_cs_never_returns:
  assumes mr: "make_ready s = Inr s1" and z: "buffer_ops s1 = 0"
    and ne: "items s1 \<noteq> []" and lt: "hd (items s1) < val" and ab: "val \<notin> set (items s1)"
  shows "find_cs s val = None"
proof -
  have sz: "size_cs s1 = Inr (s1\<lparr>state := Ready\<rparr>, length (items s1))"
    using z by (simp add: size_cs_def make_ready_empty_log)
  have "find_loop (items s1) val 0 (length (items s1)) = None"
    using ne lt ab by (intro find_loop_never_returns) (auto simp: hd_conv_nth)
  then show ?thesis using mr sz by (simp add: find_cs_def)
qed

text \<open>When the loop returns: on a value that is in a strictly increasing vector, with its
  index; and on a value below every element, with the end of the vector.\<close>

lemma find_loop_finds:
  assumes srt: "sorted_wrt (<) its" and val: "its ! k = val"
  shows "beg \<le> k \<Longrightarrow> k < fin \<Longrightarrow> fin \<le> length its \<Longrightarrow> find_loop its val beg fin = Some k"
proof (induction "fin - beg" arbitrary: beg fin rule: less_induct)
  case less
  define med where "med = beg + (fin - beg) div 2"
  have mb: "beg \<le> med" "med < fin" using less.prems by (auto simp: med_def)
  have mono: "\<And>i j. i < j \<Longrightarrow> j < length its \<Longrightarrow> its ! i < its ! j"
    using srt by (simp add: sorted_wrt_iff_nth_less)
  have unf: "find_loop its val beg fin =
       (if its ! med = val then Some med
        else if its ! med > val then find_loop its val beg med
        else find_loop its val med fin)"
    using less.prems by (subst find_loop.simps) (simp add: Let_def med_def)
  consider "med = k" | "k < med" | "med < k" by linarith
  then show ?case
  proof cases
    case 1
    then show ?thesis using unf val by simp
  next
    case 2
    then have gt: "val < its ! med" using mono[of k med] mb less.prems val by simp
    have "find_loop its val beg med = Some k"
      using less.prems mb 2 by (intro less.hyps) auto
    then show ?thesis using unf gt by auto
  next
    case 3
    then have lt: "its ! med < val" using mono[of med k] less.prems val by simp
    have "beg < med"
    proof (rule ccontr)
      assume "\<not> beg < med"
      then have "(fin - beg) div 2 = 0" using mb by (simp add: med_def)
      then have "fin - beg < 2" by (simp add: div_eq_0_iff)
      then show False using 3 mb less.prems by (simp add: med_def)
    qed
    then have "find_loop its val med fin = Some k"
      using less.prems mb 3 by (intro less.hyps) auto
    then show ?thesis using unf lt by (auto dest: less_asym)
  qed
qed

lemma find_loop_below_all:
  assumes "\<forall>x \<in> set its. val < x"
  shows "fin \<le> length its \<Longrightarrow> find_loop its val beg fin = Some (length its)"
proof (induction "fin - beg" arbitrary: fin rule: less_induct)
  case less
  show ?case
  proof (cases "beg < fin")
    case False
    then show ?thesis by (subst find_loop.simps) simp
  next
    case True
    define med where "med = beg + (fin - beg) div 2"
    have mb: "beg \<le> med" "med < fin" using True by (auto simp: med_def)
    have gt: "val < its ! med" using assms mb less.prems by simp
    have "find_loop its val beg fin = find_loop its val beg med"
      using True gt by (subst find_loop.simps) (auto simp: Let_def med_def)
    moreover have "find_loop its val beg med = Some (length its)"
      using mb less.prems by (intro less.hyps) auto
    ultimately show ?thesis by simp
  qed
qed

section \<open>Copy construction and the log fields\<close>

lemma copy_construct_cases:
  "copy_construct mb mo ms other =
     (case make_ready other of
        Inl e \<Rightarrow> Inl e
      | Inr other1 \<Rightarrow>
          if items other1 = []
          then Inr (other1, \<lparr>op_buffer = mb, buffer_ops = mo, state = ms, items = []\<rparr>)
          else Inl OutOfBounds)"
  by (cases "make_ready other") (auto simp: copy_construct_def std_copy_def)

lemma push_op_outside:
  "\<not> log_within_capacity s \<Longrightarrow> push_op s item = Inl OutOfBounds"
  by (auto simp: push_op_def log_within_capacity_def)

lemma new_within_capacity: "log_within_capacity (contiguous_set_new memory)"
  by (simp add: log_within_capacity_def contiguous_set_new_def BufferSize_def)

section \<open>The claims\<close>

subsection \<open>C1: equivalence with a reference ordered set\<close>

text \<open>
  Claim C1 says that, for every sequence of \<open>insert\<close>/\<open>erase\<close> calls on an empty
  container, the contents seen by iterating equal those of a reference ordered set that
  received the same calls one at a time. The code does not do this: for
  \<open>erase(1); insert(1)\<close> on a new \<open>contiguous_set<int>\<close> the iteration yields nothing,
  while the reference set holds 1. The first entry on the value is a delete, a later
  insert clears \<open>eventual_delete\<close>, and no net operation is written at all.
\<close>

theorem set_equivalence_fails:
  "observed_contents memory64 [Erase 1, Insert 1] = Inr []
   \<and> reference_contents [Erase 1, Insert (1::int)] = [1]"
  by code_simp

subsection \<open>C2: the last operation on a value wins\<close>

text \<open>
  Claim C2 says that \<open>erase(v); insert(v)\<close> in one batch, for \<open>v\<close> absent from the
  reconciled store, leaves \<open>v\<close> present, and that in general the outcome for a value is
  the kind of its last operation. On the code, a container holding 2 and 5 that records
  \<open>erase(3); insert(3)\<close> and reconciles still holds 2 and 5 only; and a container holding
  2 and 5 that records \<open>insert(5); erase(5)\<close> and reconciles still holds 5.
\<close>

theorem last_write_does_not_win:
  "map_sum id items
     (and_then (and_then (and_then (apply_calls (contiguous_set_new memory64) [Insert 2, Insert 5])
        make_ready) (\<lambda>s. apply_calls s [Erase 3, Insert 3])) make_ready) = Inr [2, 5]
   \<and> map_sum id items
     (and_then (and_then (and_then (apply_calls (contiguous_set_new memory64) [Insert 2, Insert 5])
        make_ready) (\<lambda>s. apply_calls s [Insert 5, Erase 5])) make_ready) = Inr [2, 5]"
  by code_simp

subsection \<open>C3: the range queries and pending operations\<close>

text \<open>
  Claim C3 says that \<open>lower_bound\<close>, \<open>upper_bound\<close> and \<open>equal_range\<close> reconcile before
  they compute, so that pending operations are visible to them. The three functions read
  \<open>items\<close> without calling \<open>make_ready\<close>: after \<open>insert(1)\<close> on a new container they
  answer for the empty store (first conjunct), not for the reconciled store that holds 1
  (second conjunct).
\<close>

theorem range_queries_miss_pending:
  "map_sum id (\<lambda>s. (lower_bound s 2, upper_bound s 1, equal_range s 1))
     (apply_calls (contiguous_set_new memory64) [Insert 1]) = Inr (0, 0, (0, 0))
   \<and> map_sum id (\<lambda>s. (lower_bound s 2, upper_bound s 1, equal_range s 1))
     (and_then (apply_calls (contiguous_set_new memory64) [Insert 1]) make_ready)
       = Inr (1, 1, (0, 1))"
  by code_simp

subsection \<open>C4: \<open>find\<close> returns\<close>

text \<open>
  Claim C4 says that \<open>find(v)\<close> terminates for every container and value. The loop of
  \<open>find\<close> sets \<open>beg = med\<close> when the middle element is smaller, so it never leaves a range
  of one element whose element is smaller than the value: on the container holding 1,
  \<open>find(2)\<close> does not return.
\<close>

theorem find_does_not_return:
  "\<exists>s. apply_calls (contiguous_set_new memory64) [Insert 1] = Inr s \<and> find_cs s 2 = None"
proof -
  have run: "map_sum id (\<lambda>s. (items s, buffer_ops s))
      (and_then (apply_calls (contiguous_set_new memory64) [Insert 1]) make_ready) = Inr ([1], 0)"
    by code_simp
  then obtain s where s: "apply_calls (contiguous_set_new memory64) [Insert 1] = Inr s"
    by (cases "apply_calls (contiguous_set_new memory64) [Insert 1]") (auto simp: and_then_def)
  from run s obtain s1 where s1: "make_ready s = Inr s1" "items s1 = [1]" "buffer_ops s1 = 0"
    by (cases "make_ready s") (auto simp: and_then_def)
  have "find_cs s 2 = None"
    by (rule find_cs_never_returns[OF s1(1) s1(3)]) (simp_all add: s1(2))
  with s show ?thesis by blast
qed

subsection \<open>C5: the store stays strictly increasing\<close>

text \<open>
  Claim C5: if the store is strictly increasing (hence duplicate-free) before a
  reconciliation, it is strictly increasing and duplicate-free after it, whatever the log
  holds. The log is any array content with any count of live entries up to the capacity;
  \<open>make_ready\<close> returns and empties the log.
\<close>

theorem make_ready_keeps_order:
  assumes "sorted_wrt (<) (items s)" and "buffer_ops s \<le> BufferSize s"
  shows "\<exists>s'. make_ready s = Inr s' \<and> sorted_wrt (<) (items s') \<and> distinct (items s')
            \<and> buffer_ops s' = 0"
proof -
  from make_ready_strict_sorted[OF assms] obtain s' where
    s': "make_ready s = Inr s'" "sorted_wrt (<) (items s')" by blast
  moreover have "distinct (items s')" using s'(2) by (simp add: strict_sorted_iff)
  moreover have "buffer_ops s' = 0" using make_ready_returns[OF assms(2)] s'(1) by auto
  ultimately show ?thesis by blast
qed

theorem make_ready_keeps_order_witness:
  "sorted_wrt (<) (items \<lparr>op_buffer = [BufferItem InsertItem 2, BufferItem DeleteItem 3,
                                          BufferItem InsertItem 0, BufferItem DeleteItem 9],
                            buffer_ops = 4, state = Ready, items = [1, 3::int]\<rparr>)
   \<and> buffer_ops \<lparr>op_buffer = [BufferItem InsertItem 2, BufferItem DeleteItem 3,
                                 BufferItem InsertItem 0, BufferItem DeleteItem 9],
                   buffer_ops = 4, state = Ready, items = [1, 3::int]\<rparr>
       \<le> BufferSize \<lparr>op_buffer = [BufferItem InsertItem 2, BufferItem DeleteItem 3,
                                     BufferItem InsertItem 0, BufferItem DeleteItem 9],
                       buffer_ops = 4, state = Ready, items = [1, 3::int]\<rparr>
   \<and> (\<exists>s'. make_ready \<lparr>op_buffer = [BufferItem InsertItem 2, BufferItem DeleteItem 3,
                                        BufferItem InsertItem 0, BufferItem DeleteItem 9],
                          buffer_ops = 4, state = Ready, items = [1, 3::int]\<rparr> = Inr s'
          \<and> sorted_wrt (<) (items s') \<and> distinct (items s') \<and> buffer_ops s' = 0)"
proof -
  define s :: "int contiguous_set" where
    "s = \<lparr>op_buffer = [BufferItem InsertItem 2, BufferItem DeleteItem 3,
                       BufferItem InsertItem 0, BufferItem DeleteItem 9],
          buffer_ops = 4, state = Ready, items = [1, 3]\<rparr>"
  have h1: "sorted_wrt (<) (items s)" by (simp add: s_def)
  have h2: "buffer_ops s \<le> BufferSize s" by (simp add: s_def BufferSize_def)
  from make_ready_keeps_order[OF h1 h2] h1 h2 show ?thesis unfolding s_def by blast
qed

subsection \<open>C6: the log never exceeds its capacity\<close>

text \<open>
  Claim C6: the log never holds more than \<open>BufferSize\<close> entries. On a container whose
  log is within capacity (\<open>BufferSize\<close> is positive, as a C++ array bound is), \<open>insert\<close>
  and \<open>erase\<close> always succeed; each appends exactly one entry to the live log; when the
  log is full, \<open>make_ready\<close> runs first and the entry is appended to the emptied log; and
  the log is within capacity afterwards, also after any sequence of calls. A new
  container starts within capacity (\<open>new_within_capacity\<close>).
\<close>

theorem log_never_exceeds_capacity:
  assumes "0 < BufferSize s" and "log_within_capacity s"
  shows "(\<exists>s1 s'. (if buffer_ops s = BufferSize s then make_ready s else Inr s) = Inr s1
            \<and> insert_cs s v = Inr s' \<and> items s' = items s1
            \<and> pending s' = (if buffer_ops s = BufferSize s then [] else pending s) @ [BufferItem InsertItem v]
            \<and> log_within_capacity s')
       \<and> (\<exists>s1 s'. (if buffer_ops s = BufferSize s then make_ready s else Inr s) = Inr s1
            \<and> erase s v = Inr s' \<and> items s' = items s1
            \<and> pending s' = (if buffer_ops s = BufferSize s then [] else pending s) @ [BufferItem DeleteItem v]
            \<and> log_within_capacity s')
       \<and> (\<exists>s'. apply_calls s calls = Inr s' \<and> log_within_capacity s')"
proof (intro conjI)
  show "\<exists>s1 s'. (if buffer_ops s = BufferSize s then make_ready s else Inr s) = Inr s1
            \<and> insert_cs s v = Inr s' \<and> items s' = items s1
            \<and> pending s' = (if buffer_ops s = BufferSize s then [] else pending s) @ [BufferItem InsertItem v]
            \<and> log_within_capacity s'"
    using insert_cs_effect[OF assms, of v] by blast
  show "\<exists>s1 s'. (if buffer_ops s = BufferSize s then make_ready s else Inr s) = Inr s1
            \<and> erase s v = Inr s' \<and> items s' = items s1
            \<and> pending s' = (if buffer_ops s = BufferSize s then [] else pending s) @ [BufferItem DeleteItem v]
            \<and> log_within_capacity s'"
    using erase_effect[OF assms, of v] by blast
  show "\<exists>s'. apply_calls s calls = Inr s' \<and> log_within_capacity s'"
    using apply_calls_within_capacity[OF assms, of calls] by blast
qed

theorem log_never_exceeds_capacity_witness:
  "0 < BufferSize \<lparr>op_buffer = [BufferItem InsertItem 4, BufferItem DeleteItem 4],
                    buffer_ops = 2, state = Ready, items = [4::int]\<rparr>
   \<and> log_within_capacity \<lparr>op_buffer = [BufferItem InsertItem 4, BufferItem DeleteItem 4],
                    buffer_ops = 2, state = Ready, items = [4::int]\<rparr>
   \<and> (\<exists>s'. apply_calls \<lparr>op_buffer = [BufferItem InsertItem 4, BufferItem DeleteItem 4],
                    buffer_ops = 2, state = Ready, items = [4::int]\<rparr>
                [Insert 1, Erase 2, Insert 3] = Inr s' \<and> log_within_capacity s')"
proof -
  define s :: "int contiguous_set" where
    "s = \<lparr>op_buffer = [BufferItem InsertItem 4, BufferItem DeleteItem 4],
          buffer_ops = 2, state = Ready, items = [4]\<rparr>"
  have h1: "0 < BufferSize s" by (simp add: s_def BufferSize_def)
  have h2: "log_within_capacity s" by (simp add: s_def BufferSize_def log_within_capacity_def)
  from log_never_exceeds_capacity[OF h1 h2, of 0 "[Insert 1, Erase 2, Insert 3]"] h1 h2
  show ?thesis unfolding s_def by blast
qed

subsection \<open>C7: insert then erase of an absent value cancels\<close>

text \<open>
  Claim C7: for a value \<open>v\<close> absent from the reconciled store, \<open>insert(v); erase(v)\<close>
  in one batch followed by reconciliation leaves \<open>v\<close> absent and the store otherwise
  unchanged. The store is strictly increasing; the batch may hold earlier entries, and has
  room for the two new ones. After reconciliation \<open>v\<close> is absent and the store is what
  the earlier entries alone reconcile to, less \<open>v\<close>; when there are no earlier entries,
  the store is as it was.
\<close>

theorem insert_then_erase_cancels:
  assumes inv: "log_within_capacity s" and room: "buffer_ops s + 2 \<le> BufferSize s"
    and srt: "sorted_wrt (<) (items s)" and absent: "v \<notin> set (items s)"
  shows "\<exists>s0 s1 s2 s3. make_ready s = Inr s0 \<and> insert_cs s v = Inr s1 \<and> erase s1 v = Inr s2
          \<and> make_ready s2 = Inr s3
          \<and> v \<notin> set (items s3) \<and> set (items s3) = set (items s0) - {v}
          \<and> sorted_wrt (<) (items s3) \<and> buffer_ops s3 = 0
          \<and> (buffer_ops s = 0 \<longrightarrow> items s3 = items s)"
proof -
  from insert_then_erase_pending[OF inv room, of v] obtain s1 s2 where
    st: "insert_cs s v = Inr s1" "erase s1 v = Inr s2"
    and pe: "pending s2 = pending s @ [BufferItem InsertItem v, BufferItem DeleteItem v]"
    and n2: "buffer_ops s2 = buffer_ops s + 2" and bs: "BufferSize s2 = BufferSize s"
    and it: "items s2 = items s"
    by blast
  have cap: "buffer_ops s \<le> BufferSize s" using inv by (simp add: log_within_capacity_def)
  have cap2: "buffer_ops s2 \<le> BufferSize s2" using n2 bs room by simp
  have srt2: "sorted_wrt (<) (items s2)" using srt it by simp
  from make_ready_membership[OF srt cap] obtain s0 where
    m0: "make_ready s = Inr s0" and so0: "sorted_wrt (<) (items s0)"
    and mem0: "\<And>w. w \<in> set (items s0) \<longleftrightarrow>
        (if entries_for w (pending s) = []
            \<or> operation (hd (entries_for w (pending s))) \<noteq> operation (last (entries_for w (pending s)))
         then w \<in> set (items s)
         else operation (last (entries_for w (pending s))) = InsertItem)"
    by blast
  from make_ready_membership[OF srt2 cap2] obtain s3 where
    m3: "make_ready s2 = Inr s3" and so3: "sorted_wrt (<) (items s3)" and z3: "buffer_ops s3 = 0"
    and mem3: "\<And>w. w \<in> set (items s3) \<longleftrightarrow>
        (if entries_for w (pending s2) = []
            \<or> operation (hd (entries_for w (pending s2))) \<noteq> operation (last (entries_for w (pending s2)))
         then w \<in> set (items s2)
         else operation (last (entries_for w (pending s2))) = InsertItem)"
    by blast
  have other: "entries_for w (pending s2) = entries_for w (pending s)" if "w \<noteq> v" for w
    using that by (simp add: pe entries_for_def)
  have own: "entries_for v (pending s2) =
      entries_for v (pending s) @ [BufferItem InsertItem v, BufferItem DeleteItem v]"
    by (simp add: pe entries_for_def)
  have vout: "v \<notin> set (items s3)"
    unfolding mem3[of v] using absent it by (simp add: own)
  have same: "w \<in> set (items s3) \<longleftrightarrow> w \<in> set (items s0)" if "w \<noteq> v" for w
    unfolding mem3[of w] mem0[of w] other[OF that] it ..
  have seteq: "set (items s3) = set (items s0) - {v}"
  proof (intro set_eqI)
    fix w
    show "w \<in> set (items s3) \<longleftrightarrow> w \<in> set (items s0) - {v}"
      using vout same[of w] by (cases "w = v") auto
  qed
  have last: "items s3 = items s" if z: "buffer_ops s = 0"
  proof -
    have "s0 = s\<lparr>state := Ready\<rparr>" using m0 z by (simp add: make_ready_empty_log)
    then have "items s0 = items s" by simp
    then have "set (items s3) = set (items s)" using seteq absent by auto
    then show ?thesis
      using so3 srt by (intro sorted_distinct_set_unique) (auto simp: strict_sorted_iff)
  qed
  show ?thesis using m0 st m3 vout seteq so3 z3 last by blast
qed

theorem insert_then_erase_cancels_witness:
  "log_within_capacity \<lparr>op_buffer = BufferItem InsertItem 2 # memory64, buffer_ops = 1,
                          state = Ready, items = [1, 3]\<rparr>
   \<and> sorted_wrt (<) [1, 3::int] \<and> 2 \<notin> set [1, 3::int]
   \<and> (\<exists>s0 s1 s2 s3.
         make_ready \<lparr>op_buffer = BufferItem InsertItem 2 # memory64, buffer_ops = 1,
                      state = Ready, items = [1, 3]\<rparr> = Inr s0
       \<and> insert_cs \<lparr>op_buffer = BufferItem InsertItem 2 # memory64, buffer_ops = 1,
                      state = Ready, items = [1, 3]\<rparr> 2 = Inr s1
       \<and> erase s1 2 = Inr s2 \<and> make_ready s2 = Inr s3
       \<and> 2 \<notin> set (items s3) \<and> set (items s3) = set (items s0) - {2})"
proof -
  define s :: "int contiguous_set" where
    "s = \<lparr>op_buffer = BufferItem InsertItem 2 # memory64, buffer_ops = 1,
          state = Ready, items = [1, 3]\<rparr>"
  have h1: "log_within_capacity s"
    by (simp add: s_def BufferSize_def memory64_def log_within_capacity_def)
  have h2: "buffer_ops s + 2 \<le> BufferSize s" by (simp add: s_def BufferSize_def memory64_def)
  have h3: "sorted_wrt (<) (items s)" by (simp add: s_def)
  have h4: "2 \<notin> set (items s)" by (simp add: s_def)
  have it: "items s = [1, 3]" by (simp add: s_def)
  from insert_then_erase_cancels[OF h1 h2 h3 h4] h1 h3 h4 it show ?thesis
    unfolding s_def by (metis (no_types, lifting))
qed

subsection \<open>C8: what copy construction leaves in the store\<close>

text \<open>
  Claim C8 says that copy construction yields a copy whose store contains no elements,
  whatever the source holds. The constructor resizes the new \<open>items\<close> to its own size,
  zero, where the \<open>std::copy\<close> of \<open>other.items\<close> that follows needs the size of the
  source; \<open>std::copy\<close> then writes every element of the source from \<open>items.begin()\<close>
  on. For a source that holds an element the write is past the end of the empty vector,
  and no copy with an empty store results: for the container on which \<open>insert(1)\<close> was
  called, copy construction is out of bounds.
\<close>

theorem copy_of_nonempty_source_out_of_bounds:
  "and_then (apply_calls (contiguous_set_new memory64) [Insert 1])
     (copy_construct memory64 0 Ready) = Inl OutOfBounds"
  by code_simp

subsection \<open>C9: a value whose first and last entries differ in kind\<close>

text \<open>
  Claim C9: when the first log entry on a value \<open>v\<close> (the entry at which the outer loop
  meets \<open>v\<close> unhandled) and the last log entry on \<open>v\<close> have different kinds,
  reconciliation writes no net operation for \<open>v\<close>, and \<open>v\<close> is in the store afterwards
  exactly if it was before, present or not.
\<close>

theorem mixed_kinds_leave_membership:
  assumes cap: "buffer_ops s \<le> BufferSize s"
    and occ: "entries_for v (pending s) \<noteq> []"
    and mixed: "operation (hd (entries_for v (pending s))) \<noteq> operation (last (entries_for v (pending s)))"
  shows "\<exists>s'. make_ready s = Inr s'
            \<and> v \<notin> item_value ` set (resolve (op_buffer s) (nat (buffer_ops s)) (items s))
            \<and> (v \<in> set (items s') \<longleftrightarrow> v \<in> set (items s))"
proof -
  have ne: "buffer_ops s \<noteq> 0" using occ by (auto simp: pending_def entries_for_def)
  have nl: "nat (buffer_ops s) \<le> length (op_buffer s)" using cap by (simp add: BufferSize_def)
  have skip: "v \<notin> item_value ` set (resolve (op_buffer s) (nat (buffer_ops s)) (items s))"
    using resolve_skips_mixed[OF nl] mixed unfolding pending_def by blast
  from make_ready_membership_unchanged[OF cap ne skip] skip show ?thesis by blast
qed

theorem mixed_kinds_leave_membership_witness:
  "buffer_ops \<lparr>op_buffer = [BufferItem InsertItem 3, BufferItem InsertItem 2, BufferItem DeleteItem 3],
               buffer_ops = 3, state = Ready, items = [1, 3::int]\<rparr>
     \<le> BufferSize \<lparr>op_buffer = [BufferItem InsertItem 3, BufferItem InsertItem 2, BufferItem DeleteItem 3],
               buffer_ops = 3, state = Ready, items = [1, 3::int]\<rparr>
   \<and> entries_for 3 (pending \<lparr>op_buffer = [BufferItem InsertItem 3, BufferItem InsertItem 2, BufferItem DeleteItem 3],
               buffer_ops = 3, state = Ready, items = [1, 3::int]\<rparr>)
       = [BufferItem InsertItem 3, BufferItem DeleteItem 3]
   \<and> (\<exists>s'. make_ready \<lparr>op_buffer = [BufferItem InsertItem 3, BufferItem InsertItem 2, BufferItem DeleteItem 3],
               buffer_ops = 3, state = Ready, items = [1, 3::int]\<rparr> = Inr s'
          \<and> 3 \<in> set (items s'))"
proof -
  define s :: "int contiguous_set" where
    "s = \<lparr>op_buffer = [BufferItem InsertItem 3, BufferItem InsertItem 2, BufferItem DeleteItem 3],
          buffer_ops = 3, state = Ready, items = [1, 3]\<rparr>"
  have h1: "buffer_ops s \<le> BufferSize s" by (simp add: s_def BufferSize_def)
  have e: "entries_for 3 (pending s) = [BufferItem InsertItem 3, BufferItem DeleteItem 3]"
    by (simp add: s_def pending_def entries_for_def)
  have h2: "entries_for 3 (pending s) \<noteq> []" by (simp add: e)
  have h3: "operation (hd (entries_for 3 (pending s))) \<noteq> operation (last (entries_for 3 (pending s)))"
    by (simp add: e)
  have it: "3 \<in> set (items s)" by (simp add: s_def)
  from mixed_kinds_leave_membership[OF h1 h2 h3] h1 e it show ?thesis unfolding s_def by blast
qed

subsection \<open>C10: the fields copy construction does not set\<close>

text \<open>
  Claim C10: the copy constructor assigns only the item vector; \<open>buffer_ops\<close>, \<open>state\<close>
  and the array keep what the memory of the new object held, so the invariant
  \<open>0 \<le> buffer_ops \<le> BufferSize\<close> holds for the copy only if the memory happened to hold
  such a number. When it does not, the first \<open>insert\<close> or \<open>erase\<close> on the copy accesses
  the array out of bounds, and when the number is above \<open>BufferSize\<close> so do
  \<open>make_ready\<close> and the reads that call it.
\<close>

theorem copy_construct_leaves_log_fields:
  assumes "copy_construct mb mo ms other = Inr (other1, c)"
  shows "op_buffer c = mb \<and> buffer_ops c = mo \<and> state c = ms
       \<and> log_within_capacity c = (0 \<le> mo \<and> mo \<le> int (length mb))
       \<and> (\<not> log_within_capacity c \<longrightarrow>
            insert_cs c v = Inl OutOfBounds \<and> erase c v = Inl OutOfBounds)
       \<and> (int (length mb) < mo \<longrightarrow>
            make_ready c = Inl OutOfBounds \<and> begin_cs c = Inl OutOfBounds
          \<and> end_cs c = Inl OutOfBounds \<and> size_cs c = Inl OutOfBounds
          \<and> find_cs c v = Some (Inl OutOfBounds))"
proof -
  have c: "c = \<lparr>op_buffer = mb, buffer_ops = mo, state = ms, items = []\<rparr>"
    using assms by (cases "make_ready other") (auto simp: copy_construct_cases split: if_splits)
  have f: "op_buffer c = mb" "buffer_ops c = mo" "state c = ms" "BufferSize c = int (length mb)"
    by (simp_all add: c BufferSize_def)
  have inv: "log_within_capacity c = (0 \<le> mo \<and> mo \<le> int (length mb))"
    by (simp add: log_within_capacity_def f)
  have out: "\<not> log_within_capacity c \<Longrightarrow>
      insert_cs c v = Inl OutOfBounds \<and> erase c v = Inl OutOfBounds"
  proof -
    assume n: "\<not> log_within_capacity c"
    then have "buffer_ops c \<noteq> BufferSize c" by (auto simp: log_within_capacity_def BufferSize_def)
    then show ?thesis using push_op_outside[OF n] by (simp add: insert_cs_def erase_def)
  qed
  have above: "int (length mb) < mo \<Longrightarrow> make_ready c = Inl OutOfBounds"
    using f by (auto simp: make_ready_def)
  show ?thesis
    using f(1-3) inv out above
    by (simp add: begin_cs_def end_cs_def size_cs_def find_cs_def)
qed

theorem copy_construct_leaves_log_fields_witness:
  "copy_construct memory64 65 Modified (contiguous_set_new memory64)
     = Inr (contiguous_set_new memory64,
            \<lparr>op_buffer = memory64, buffer_ops = 65, state = Modified, items = []\<rparr>)
   \<and> \<not> log_within_capacity \<lparr>op_buffer = memory64, buffer_ops = 65, state = Modified, items = []\<rparr>
   \<and> insert_cs \<lparr>op_buffer = memory64, buffer_ops = 65, state = Modified, items = []\<rparr> 1
       = Inl OutOfBounds
   \<and> begin_cs \<lparr>op_buffer = memory64, buffer_ops = 65, state = Modified, items = []\<rparr>
       = Inl OutOfBounds"
proof -
  have h: "copy_construct memory64 65 Modified (contiguous_set_new memory64)
     = Inr (contiguous_set_new memory64,
            \<lparr>op_buffer = memory64, buffer_ops = 65, state = Modified, items = []\<rparr>)"
    by (simp add: copy_construct_cases make_ready_def contiguous_set_new_def)
  have l: "int (length memory64) < 65" "\<not> (65 \<le> int (length memory64))"
    by (simp_all add: memory64_def)
  from copy_construct_leaves_log_fields[OF h, of 1] h l show ?thesis by simp
qed

end
